theory Spec2Isabelle
  imports Complex_Main
begin

section \<open>Python primitives used by the redaction pipeline\<close>

text \<open>
  Strings are lists of characters. The model covers ASCII text: \<open>str.lower\<close> maps
  \<open>A\<close>..\<open>Z\<close> to \<open>a\<close>..\<open>z\<close> and leaves every other character alone, and
  \<open>str.strip\<close> removes the ASCII characters for which \<open>str.isspace\<close> holds
  (codes 9..13 and 28..32) from both ends. A Python float is the real number it
  denotes, and every float operation rounds its exact result to binary64.
\<close>

datatype py_error = ValueError | ZeroDivisionError | OverflowError | RemoteError | SystemExit int

definition is_space :: "char \<Rightarrow> bool" where
  "is_space c = (let n = (of_char c :: nat) in (9 \<le> n \<and> n \<le> 13) \<or> (28 \<le> n \<and> n \<le> 32))"

definition lower_char :: "char \<Rightarrow> char" where
  "lower_char c = (let n = (of_char c :: nat) in if 65 \<le> n \<and> n \<le> 90 then char_of (n + 32) else c)"

definition lower :: "string \<Rightarrow> string" where
  "lower s = map lower_char s"

definition strip :: "string \<Rightarrow> string" where
  "strip s = rev (dropWhile is_space (rev (dropWhile is_space s)))"

section \<open>Binary64 arithmetic\<close>

text \<open>
  Python's \<open>float\<close> is IEEE 754 binary64: a finite value is \<open>m * 2 ^ e\<close> with
  \<open>\<bar>m\<bar> \<le> 2 ^ 53\<close> and \<open>- 1074 \<le> e \<le> 971\<close>, and \<open>+\<close>, \<open>-\<close>, \<open>*\<close>, \<open>/\<close> return
  the exact result rounded to the nearest such value, ties going to the even
  \<open>m\<close>. \<open>round_half_even\<close> rounds to the nearest integer in that way.
\<close>

definition round_half_even :: "real \<Rightarrow> int" where
  "round_half_even x =
     (let f = \<lfloor>x\<rfloor>; r = x - of_int f in
      if r < 1 / 2 then f else if 1 / 2 < r then f + 1 else if even f then f else f + 1)"

text \<open>
  The exponent \<open>e\<close> of the last place of \<open>x\<close>: the one with
  \<open>2 ^ (e + 52) \<le> \<bar>x\<bar> < 2 ^ (e + 53)\<close>, kept within \<open>- 1074 .. 971\<close> (the
  subnormal numbers share the exponent \<open>- 1074\<close>). The search starts at 0, goes up
  while \<open>x\<close> is too large and then down while it is too small.
\<close>

function exp_up :: "real \<Rightarrow> int \<Rightarrow> int" where
  "exp_up x e = (if e < 971 \<and> 2 powi (e + 53) \<le> \<bar>x\<bar> then exp_up x (e + 1) else e)"
  by pat_completeness auto
termination
  by (relation "measure (\<lambda>(x, e). nat (971 - e))") auto

function exp_down :: "real \<Rightarrow> int \<Rightarrow> int" where
  "exp_down x e = (if - 1074 < e \<and> \<bar>x\<bar> < 2 powi (e + 52) then exp_down x (e - 1) else e)"
  by pat_completeness auto
termination
  by (relation "measure (\<lambda>(x, e). nat (e + 1074))") auto

declare exp_up.simps [simp del]

declare exp_down.simps [simp del]

definition ulp_exp :: "real \<Rightarrow> int" where
  "ulp_exp x = exp_down x (exp_up x 0)"

text \<open>
  \<open>fl64 x\<close> is the binary64 value nearest to \<open>x\<close>. An exact result of magnitude
  \<open>2 ^ 1024\<close> or more, for which Python returns an infinity, is outside the model,
  and so are infinities and NaN as operands.
\<close>

definition fl64 :: "real \<Rightarrow> real" where
  "fl64 x = of_int (round_half_even (x / 2 powi ulp_exp x)) * 2 powi ulp_exp x"

section \<open>streamlit_app.py: type normalization\<close>

definition ID_ALIASES :: "string list" where
  "ID_ALIASES = [''ssn'', ''tax_id'', ''routing_number'', ''bank_account'', ''client_id'']"

definition NAME_ALIASES :: "string list" where
  "NAME_ALIASES = [''name'', ''person'', ''personal_name'', ''full_name'', ''human_name'',
     ''first_name'', ''last_name'', ''surname'', ''given_name'']"

text \<open>The literal set tested by the second branch of \<open>_normalize_type\<close>.\<close>

definition DIRECT_TYPES :: "string list" where
  "DIRECT_TYPES = [''email'', ''phone'', ''ip'', ''address'', ''id_number'', ''password'', ''other'']"

text \<open>
  \<open>_normalize_type(t)\<close>: \<open>None\<close> and the empty string are falsy and give \<open>other\<close>;
  otherwise the lowered, stripped string is looked up in the alias tables, in the
  order of the source.
\<close>

definition normalize_type :: "string option \<Rightarrow> string" where
  "normalize_type t =
     (case t of
        None \<Rightarrow> ''other''
      | Some s \<Rightarrow>
          if s = [] then ''other''
          else (let t' = strip (lower s) in
                if t' \<in> set NAME_ALIASES then ''name''
                else if t' \<in> set DIRECT_TYPES then t'
                else if t' \<in> set ID_ALIASES then ''id_number''
                else ''other''))"

text \<open>The fixed category vocabulary of the specification.\<close>

definition vocabulary :: "string list" where
  "vocabulary = [''name'', ''email'', ''phone'', ''address'', ''ip'', ''id_number'', ''password'', ''other'']"

section \<open>Data model: the classified document\<close>

text \<open>
  The JSON artifacts are dictionaries; a key that is absent or holds \<open>null\<close> is
  \<open>None\<close>. A word's box is \<open>{x, y, w, h}\<close> in pixels.
\<close>

record bbox =
  bbox_x :: real
  bbox_y :: real
  bbox_w :: real
  bbox_h :: real

record pii_ann =
  is_pii :: bool
  pii_type :: "string option"
  pii_source :: "string option"

text \<open>
  The value under \<open>conf\<close>: what \<open>float()\<close> accepts carries its numeric value,
  anything else makes \<open>float()\<close> raise.
\<close>

datatype conf_raw = Coercible real | Uncoercible

record word =
  w_text :: "string option"
  w_bbox :: "bbox option"
  w_box :: "bbox option"
  w_bbox_px :: "bbox option"
  w_conf :: "conf_raw option"
  w_source :: "string option"
  w_pii :: "pii_ann option"

record page =
  p_page :: "int option"
  p_width :: "int option"
  p_height :: "int option"
  p_words :: "word list"

type_synonym document = "page list"

section \<open>redactor.py: geometry and the redaction set\<close>

record rect =
  rect_x0 :: real
  rect_y0 :: real
  rect_x1 :: real
  rect_y1 :: real

text \<open>
  Modelled from the spec: \<open>fitz.Rect.intersect\<close>, \<open>Rect.width\<close> and \<open>Rect.height\<close>
  belong to the PDF library, which is not part of the repository. Clipping is the
  intersection of the two rectangles, and a clipped rectangle is degenerate when its
  width or height is zero or negative.
\<close>

definition rect_intersect :: "rect \<Rightarrow> rect \<Rightarrow> rect" where
  "rect_intersect r p =
     \<lparr>rect_x0 = max (rect_x0 r) (rect_x0 p), rect_y0 = max (rect_y0 r) (rect_y0 p),
      rect_x1 = min (rect_x1 r) (rect_x1 p), rect_y1 = min (rect_y1 r) (rect_y1 p)\<rparr>"

definition rect_width :: "rect \<Rightarrow> real" where
  "rect_width r = rect_x1 r - rect_x0 r"

definition rect_height :: "rect \<Rightarrow> real" where
  "rect_height r = rect_y1 r - rect_y0 r"

definition ALL_TYPES :: "string list" where
  "ALL_TYPES = [''name'', ''email'', ''phone'', ''address'', ''ip'', ''id_number'', ''other'']"

text \<open>\<open>s.split(",")\<close>\<close>

fun split_on :: "char \<Rightarrow> string \<Rightarrow> string list" where
  "split_on d [] = [[]]"
| "split_on d (c # cs) =
     (if c = d then [] # split_on d cs
      else (case split_on d cs of [] \<Rightarrow> [[c]] | p # ps \<Rightarrow> (c # p) # ps))"

text \<open>\<open>parse_types\<close>; the warning printed for unknown names is not modelled.\<close>

definition parse_types :: "string \<Rightarrow> string set" where
  "parse_types s =
     (if lower (strip s) = ''all'' then set ALL_TYPES
      else (let chosen = set (map (\<lambda>t. lower (strip t)) (filter (\<lambda>t. strip t \<noteq> []) (split_on CHR '','' s)))
            in chosen \<inter> set ALL_TYPES))"

text \<open>
  The arithmetic of \<open>expand_bbox\<close>, \<open>px_to_pdf_rect\<close> and of the scale is float
  arithmetic: \<open>margin\<close> and \<open>scale\<close> are floats, and the numbers of a box are
  taken to be exactly representable (as every integer up to \<open>2 ^ 53\<close> is).
\<close>

definition expand_bbox :: "bbox \<Rightarrow> real \<Rightarrow> bbox" where
  "expand_bbox b margin =
     \<lparr>bbox_x = fl64 (bbox_x b - margin), bbox_y = fl64 (bbox_y b - margin),
      bbox_w = fl64 (bbox_w b + fl64 (2 * margin)),
      bbox_h = fl64 (bbox_h b + fl64 (2 * margin))\<rparr>"

definition clamp_rect :: "rect \<Rightarrow> rect \<Rightarrow> rect" where
  "clamp_rect r page_rect = rect_intersect r page_rect"

definition px_to_pdf_rect :: "bbox \<Rightarrow> real \<Rightarrow> rect" where
  "px_to_pdf_rect bbox_px scale =
     \<lparr>rect_x0 = fl64 (bbox_x bbox_px * scale), rect_y0 = fl64 (bbox_y bbox_px * scale),
      rect_x1 = fl64 (fl64 (bbox_x bbox_px + bbox_w bbox_px) * scale),
      rect_y1 = fl64 (fl64 (bbox_y bbox_px + bbox_h bbox_px) * scale)\<rparr>"

text \<open>
  \<open>scale = 72.0 / float(args.dpi)\<close> in \<open>main\<close>: \<open>float\<close> raises on an
  integer too large for binary64, and the division raises on zero.
\<close>

definition pixel_scale :: "int \<Rightarrow> py_error + real" where
  "pixel_scale dpi =
     (if 2 ^ 1024 - 2 ^ 970 \<le> \<bar>dpi\<bar> then Inl OverflowError
      else if dpi = 0 then Inl ZeroDivisionError
      else Inr (fl64 (72 / fl64 (of_int dpi))))"

text \<open>
  The body of the loop over the words of a page in \<open>main\<close>: the box of one word,
  or \<open>None\<close> where the source says \<open>continue\<close> or drops a degenerate rectangle.
\<close>

definition word_box :: "string set \<Rightarrow> real \<Rightarrow> real \<Rightarrow> rect \<Rightarrow> word \<Rightarrow> (rect \<times> string) option" where
  "word_box wanted margin scale page_rect w =
     (case w_pii w of
        None \<Rightarrow> None
      | Some pii \<Rightarrow>
          if \<not> is_pii pii then None
          else (let wtype = lower (case pii_type pii of None \<Rightarrow> ''other''
                                   | Some t \<Rightarrow> if t = [] then ''other'' else t)
                in if wtype \<notin> wanted then None
                   else (case w_bbox w of
                           None \<Rightarrow> None
                         | Some b \<Rightarrow>
                             (let expanded = expand_bbox b margin;
                                  r = px_to_pdf_rect expanded scale;
                                  r' = clamp_rect r page_rect
                              in if rect_width r' > 0 \<and> rect_height r' > 0
                                 then Some (r', wtype) else None))))"

text \<open>
  The loop over the pages in \<open>main\<close>. The open PDF is the list of its page
  rectangles; a page record whose number is outside \<open>1..len(doc)\<close> is skipped.
  Every computed box is applied (by the redaction annotation or, if that raises, by
  the drawn rectangle), so the result lists, per page, the boxes added.
\<close>

definition page_boxes :: "string set \<Rightarrow> real \<Rightarrow> real \<Rightarrow> rect list \<Rightarrow> page \<Rightarrow> (int \<times> (rect \<times> string) list) option" where
  "page_boxes wanted margin scale doc pinfo =
     (let pno1 = (case p_page pinfo of None \<Rightarrow> 0 | Some n \<Rightarrow> n)
      in if pno1 < 1 \<or> pno1 > int (length doc) then None
         else Some (pno1, List.map_filter (word_box wanted margin scale (doc ! nat (pno1 - 1))) (p_words pinfo)))"

definition main_boxes :: "string \<Rightarrow> int \<Rightarrow> real \<Rightarrow> rect list \<Rightarrow> document \<Rightarrow> py_error + (int \<times> (rect \<times> string) list) list" where
  "main_boxes types dpi margin doc pages_json =
     (let wanted = parse_types types
      in if wanted = {} then Inl (SystemExit 0)
         else (case pixel_scale dpi of
                 Inl e \<Rightarrow> Inl e
               | Inr scale \<Rightarrow> Inr (List.map_filter (page_boxes wanted margin scale doc) pages_json)))"

section \<open>streamlit_app.py: the category filter\<close>

text \<open>
  \<open>pii = w.get("pii") or {}\<close> followed by \<open>pii.get("is_pii")\<close> and
  \<open>pii.get("type")\<close>: a word without annotation is not flagged and has no type.
\<close>

definition flagged :: "word \<Rightarrow> bool" where
  "flagged w = (case w_pii w of None \<Rightarrow> False | Some pii \<Rightarrow> is_pii pii)"

definition raw_type :: "word \<Rightarrow> string option" where
  "raw_type w = (case w_pii w of None \<Rightarrow> None | Some pii \<Rightarrow> pii_type pii)"

text \<open>The body of the inner loop of \<open>filter_pii\<close>, on one word.\<close>

definition filter_word :: "string list \<Rightarrow> word \<Rightarrow> word" where
  "filter_word keep_types w =
     (case w_pii w of
        None \<Rightarrow> w
      | Some pii \<Rightarrow>
          if \<not> is_pii pii then w
          else (let t = normalize_type (pii_type pii)
                in if t \<notin> set keep_types
                   then w\<lparr>w_pii := Some (pii\<lparr>is_pii := False, pii_type := None\<rparr>)\<rparr>
                   else w))"

text \<open>
  \<open>filter_pii\<close> reads the classified document from \<open>in_json\<close> and writes the
  filtered one to \<open>out_json\<close>; the model maps the one to the other.
\<close>

definition filter_pii :: "document \<Rightarrow> string list \<Rightarrow> document" where
  "filter_pii data keep_types =
     map (\<lambda>page. page\<lparr>p_words := map (filter_word keep_types) (p_words page)\<rparr>) data"

section \<open>pii-identifier.py: the page tagger\<close>

text \<open>One entry \<open>{"index": i, "type": t}\<close> of a classification result.\<close>

record redaction =
  r_index :: int
  r_type :: string

subsection \<open>The regex fallback\<close>

text \<open>
  The three compiled patterns are used through \<open>search\<close> only; what the \<open>re\<close>
  library decides for a string is a parameter of the model.
\<close>

record regexes =
  email_re :: "string \<Rightarrow> bool"
  phone_re :: "string \<Rightarrow> bool"
  ipv4_re :: "string \<Rightarrow> bool"

definition ADDR_CUES :: "string list" where
  "ADDR_CUES = [''street'', ''st.'', ''road'', ''rd.'', ''avenue'', ''ave'', ''sector'', ''block'',
     ''phase'', ''colony'', ''lane'', ''ln'', ''plot'', ''apt'', ''flat'', ''suite'', ''zip'',
     ''pincode'', ''pin'', ''city'', ''state'']"

text \<open>\<open>w.get("text") or ""\<close>\<close>

definition text_or_empty :: "word \<Rightarrow> string" where
  "text_or_empty w = (case w_text w of None \<Rightarrow> [] | Some t \<Rightarrow> t)"

text \<open>\<open>sep.join(parts)\<close>\<close>

fun join :: "string \<Rightarrow> string list \<Rightarrow> string" where
  "join sep [] = []"
| "join sep [p] = p"
| "join sep (p # q # ps) = p @ sep @ join sep (q # ps)"

text \<open>\<open>cue in window\<close> on strings: \<open>cue\<close> occurs as a contiguous substring.\<close>

fun contains :: "string \<Rightarrow> string \<Rightarrow> bool" where
  "contains cue [] = (cue = [])"
| "contains cue (c # cs) = (take (length cue) (c # cs) = cue \<or> contains cue cs)"

text \<open>
  The cascade of tests on the word at position \<open>i\<close>: the type appended to \<open>out\<close>,
  or \<open>None\<close> when the word is blank or no test fires.
\<close>

definition classify_word :: "regexes \<Rightarrow> word list \<Rightarrow> nat \<Rightarrow> string option" where
  "classify_word re words i =
     (let t = strip (text_or_empty (words ! i)) in
      if t = [] then None
      else if email_re re t then Some ''email''
      else if ipv4_re re t then Some ''ip''
      else (let span = join '' '' (map (\<lambda>j. text_or_empty (words ! j)) [i..<min (i + 3) (length words)]) in
            if phone_re re span then Some ''phone''
            else (let window = join '' '' (map (\<lambda>j. lower (text_or_empty (words ! j)))
                                             [i - 5..<min (length words) (i + 5)]) in
                  if list_ex (\<lambda>cue. contains cue window) ADDR_CUES then Some ''address''
                  else None)))"

text \<open>The second loop of \<open>regex_pii_indices\<close>: distinct by index, keeping the first.\<close>

fun distinct_by_index :: "int set \<Rightarrow> redaction list \<Rightarrow> redaction list" where
  "distinct_by_index seen [] = []"
| "distinct_by_index seen (r # rs) =
     (if r_index r \<notin> seen then r # distinct_by_index (insert (r_index r) seen) rs
      else distinct_by_index seen rs)"

definition regex_pii_indices :: "regexes \<Rightarrow> word list \<Rightarrow> redaction list" where
  "regex_pii_indices re words =
     (let out = List.map_filter
                  (\<lambda>i. map_option (\<lambda>t. \<lparr>r_index = int i, r_type = t\<rparr>) (classify_word re words i))
                  [0..<length words]
      in distinct_by_index {} out)"

subsection \<open>The remote classifier\<close>

text \<open>
  What the HTTP exchange of \<open>_call_gemini\<close> produces for a chunk is a parameter:
  \<open>Raises\<close> when the request, the status check or the extraction of the candidate
  text raises; \<open>NoText\<close> when the candidate text is empty; \<open>BadJson\<close> when parsing
  or walking the payload raises inside the \<open>try\<close>; otherwise the entries of
  \<open>redactions\<close>, whose index is \<open>None\<close> when it is not an integer and whose type
  is \<open>None\<close> when the key is absent.
\<close>

record raw_redaction =
  resp_index :: "int option"
  resp_type :: "string option"

datatype response = Raises | NoText | BadJson | Redactions "raw_redaction list"

definition call_gemini :: "(word list \<Rightarrow> response) \<Rightarrow> word list \<Rightarrow> py_error + redaction list" where
  "call_gemini post words =
     (case post words of
        Raises \<Rightarrow> Inl RemoteError
      | NoText \<Rightarrow> Inr []
      | BadJson \<Rightarrow> Inr []
      | Redactions red \<Rightarrow>
          Inr (List.map_filter
                 (\<lambda>r. case resp_index r of
                        None \<Rightarrow> None
                      | Some idx \<Rightarrow>
                          if 0 \<le> idx \<and> idx < int (length words)
                          then Some \<lparr>r_index = idx,
                                     r_type = (case resp_type r of None \<Rightarrow> ''other'' | Some t \<Rightarrow> t)\<rparr>
                          else None)
                 red))"

subsection \<open>Chunking and marking\<close>

text \<open>
  \<open>range(i, n, step)\<close> for a positive step. For a negative step the function
  returns the empty list, which is what Python gives whenever \<open>i \<le> n\<close>, the only
  case in which \<open>_chunk\<close> calls it; a zero step raises and is handled there.
\<close>

function range_step :: "int \<Rightarrow> int \<Rightarrow> int \<Rightarrow> int list" where
  "range_step i n step = (if 0 < step \<and> i < n then i # range_step (i + step) n step else [])"
  by pat_completeness auto
termination
  by (relation "measure (\<lambda>(i, n, step). nat (n - i))") auto

declare range_step.simps [simp del]

text \<open>\<open>seq[a:b]\<close> for non-negative bounds.\<close>

definition slice :: "'a list \<Rightarrow> int \<Rightarrow> int \<Rightarrow> 'a list" where
  "slice seq a b = take (nat b - nat a) (drop (nat a) seq)"

definition chunk :: "'a list \<Rightarrow> int \<Rightarrow> py_error + (int \<times> 'a list) list" where
  "chunk seq chunk_size =
     (if chunk_size = 0 then Inl ValueError
      else Inr (map (\<lambda>i. (i, slice seq i (i + chunk_size)))
                  (range_step 0 (int (length seq)) chunk_size)))"

text \<open>The body of the loop of \<open>_mark\<close>, and the loop.\<close>

definition mark_one :: "word list \<Rightarrow> int \<Rightarrow> redaction \<Rightarrow> word list" where
  "mark_one words start r =
     (let idx = start + r_index r in
      if 0 \<le> idx \<and> idx < int (length words)
      then words[nat idx := (words ! nat idx)
                   \<lparr>w_pii := Some \<lparr>is_pii = True, pii_type = Some (r_type r), pii_source = None\<rparr>\<rparr>]
      else words)"

definition mark :: "word list \<Rightarrow> redaction list \<Rightarrow> int \<Rightarrow> word list" where
  "mark words red start = foldl (\<lambda>ws r. mark_one ws start r) words red"

text \<open>
  What one entry writes into a word, and what a list of entries, written in order,
  leaves in it.
\<close>

definition write_entry :: "word \<Rightarrow> redaction \<Rightarrow> word" where
  "write_entry w r =
     w\<lparr>w_pii := Some \<lparr>is_pii = True, pii_type = Some (r_type r), pii_source = None\<rparr>\<rparr>"

definition written :: "word \<Rightarrow> redaction list \<Rightarrow> word" where
  "written w rs = foldl write_entry w rs"

subsection \<open>\<open>tag_page\<close>\<close>

text \<open>
  The calls made to the two classifiers are recorded in a log, keyed by the start
  offset of the chunk; the pause between chunks is not modelled.
\<close>

datatype call = RemoteCall int | FallbackCall int

definition untagged :: "word \<Rightarrow> word" where
  "untagged w = w\<lparr>w_pii := Some \<lparr>is_pii = False, pii_type = None, pii_source = None\<rparr>\<rparr>"

text \<open>The body of the loop over the chunks.\<close>

definition tag_chunk :: "(word list \<Rightarrow> response) \<Rightarrow> regexes \<Rightarrow> word list \<times> call list
    \<Rightarrow> int \<times> word list \<Rightarrow> word list \<times> call list" where
  "tag_chunk post re st c =
     (case st of (tagged, calls) \<Rightarrow> case c of (start, chunk_items) \<Rightarrow>
        (let red = (case call_gemini post chunk_items of Inl e \<Rightarrow> [] | Inr r \<Rightarrow> r) in
         if red = []
         then (mark tagged (regex_pii_indices re chunk_items) start,
               calls @ [RemoteCall start, FallbackCall start])
         else (mark tagged red start, calls @ [RemoteCall start])))"

definition tag_page :: "(word list \<Rightarrow> response) \<Rightarrow> regexes \<Rightarrow> int \<Rightarrow> word list
    \<Rightarrow> py_error + word list \<times> call list" where
  "tag_page post re max_words_per_chunk words =
     (let tagged = map untagged words in
      case chunk tagged max_words_per_chunk of
        Inl e \<Rightarrow> Inl e
      | Inr chunks \<Rightarrow> Inr (foldl (tag_chunk post re) (tagged, []) chunks))"

text \<open>
  The result list that the loop body of \<open>tag_page\<close> passes to \<open>_mark\<close> for a
  chunk, and whether the remote result was empty (the call raised or returned
  nothing).
\<close>

definition remote_empty :: "(word list \<Rightarrow> response) \<Rightarrow> word list \<Rightarrow> bool" where
  "remote_empty post chunk_items =
     (case call_gemini post chunk_items of Inl e \<Rightarrow> True | Inr r \<Rightarrow> r = [])"

definition chunk_result :: "(word list \<Rightarrow> response) \<Rightarrow> regexes \<Rightarrow> word list \<Rightarrow> redaction list" where
  "chunk_result post re chunk_items =
     (case call_gemini post chunk_items of
        Inl e \<Rightarrow> regex_pii_indices re chunk_items
      | Inr r \<Rightarrow> if r = [] then regex_pii_indices re chunk_items else r)"

section \<open>streamlit_app.py: the redaction report\<close>

text \<open>\<open>_safe_text\<close> on a value that is a string or \<open>None\<close>.\<close>

definition safe_text :: "string option \<Rightarrow> string" where
  "safe_text x = strip (case x of None \<Rightarrow> [] | Some s \<Rightarrow> s)"

definition nonempty :: "string \<Rightarrow> string list" where
  "nonempty t = (if t = [] then [] else [t])"

text \<open>
  The two loops of \<open>_collect_context\<close>. The left loop runs \<open>j\<close> from \<open>idx - 1\<close>
  down to 0; its counter here is \<open>j + 1\<close>.
\<close>

fun collect_left :: "word list \<Rightarrow> nat \<Rightarrow> nat \<Rightarrow> string list \<Rightarrow> string list" where
  "collect_left words 0 left_n left = left"
| "collect_left words (Suc j) left_n left =
     (if length left < left_n
      then collect_left words j left_n (left @ nonempty (safe_text (w_text (words ! j))))
      else left)"

function collect_right :: "word list \<Rightarrow> nat \<Rightarrow> nat \<Rightarrow> string list \<Rightarrow> string list" where
  "collect_right words j right_n right =
     (if j < length words \<and> length right < right_n
      then collect_right words (j + 1) right_n (right @ nonempty (safe_text (w_text (words ! j))))
      else right)"
  by pat_completeness auto
termination
  by (relation "measure (\<lambda>(words, j, right_n, right). length words - j)") auto

declare collect_right.simps [simp del]

definition collect_context :: "word list \<Rightarrow> nat \<Rightarrow> nat \<Rightarrow> nat \<Rightarrow> string" where
  "collect_context words idx left_n right_n =
     join '' '' (rev (collect_left words idx left_n [])
                 @ [safe_text (w_text (words ! idx))]
                 @ collect_right words (idx + 1) right_n [])"

record item =
  i_page :: "int option"
  i_index :: nat
  i_type :: string
  i_source :: string
  i_text :: string
  i_confidence :: "real option"
  i_bbox :: "bbox option"
  i_page_width :: "int option"
  i_page_height :: "int option"
  i_context :: string

text \<open>\<open>Counter\<close>: a dictionary from keys to counts, in insertion order.\<close>

fun counter_incr :: "'k \<Rightarrow> ('k \<times> nat) list \<Rightarrow> ('k \<times> nat) list" where
  "counter_incr k [] = [(k, 1)]"
| "counter_incr k ((k', c) # kvs) =
     (if k = k' then (k', c + 1) # kvs else (k', c) # counter_incr k kvs)"

record summary =
  total :: nat
  by_type :: "(string \<times> nat) list"
  by_page :: "(int option \<times> nat) list"

record report =
  summary :: summary
  items :: "item list"

text \<open>The body of the loop over \<open>enumerate(words)\<close> in \<open>build_redaction_report\<close>.\<close>

definition report_word :: "page \<Rightarrow> report \<Rightarrow> nat \<times> word \<Rightarrow> report" where
  "report_word pg acc iw =
     (case iw of (i, w) \<Rightarrow>
        (case w_pii w of
           None \<Rightarrow> acc
         | Some pii \<Rightarrow>
             if \<not> is_pii pii then acc
             else (let typ = normalize_type (pii_type pii);
                       src = safe_text (case pii_source pii of
                                          None \<Rightarrow> Some ''unknown''
                                        | Some s \<Rightarrow> if s = [] then Some ''unknown'' else Some s);
                       text = safe_text (w_text w);
                       conf = (case w_conf w of
                                 None \<Rightarrow> None
                               | Some Uncoercible \<Rightarrow> None
                               | Some (Coercible c) \<Rightarrow> Some c);
                       bbox = (case w_bbox w of
                                 Some b \<Rightarrow> Some b
                               | None \<Rightarrow> (case w_box w of Some b \<Rightarrow> Some b | None \<Rightarrow> w_bbox_px w));
                       it = \<lparr>i_page = p_page pg, i_index = i, i_type = typ, i_source = src,
                             i_text = text, i_confidence = conf, i_bbox = bbox,
                             i_page_width = p_width pg, i_page_height = p_height pg,
                             i_context = collect_context (p_words pg) i 3 3\<rparr>;
                       s = summary acc
                   in \<lparr>summary = \<lparr>total = total s + 1,
                                    by_type = counter_incr typ (by_type s),
                                    by_page = counter_incr (p_page pg) (by_page s)\<rparr>,
                       items = items acc @ [it]\<rparr>)))"

definition report_page :: "report \<Rightarrow> page \<Rightarrow> report" where
  "report_page acc pg = foldl (report_word pg) acc (enumerate 0 (p_words pg))"

definition build_redaction_report :: "document \<Rightarrow> report" where
  "build_redaction_report data =
     foldl report_page \<lparr>summary = \<lparr>total = 0, by_type = [], by_page = []\<rparr>, items = []\<rparr> data"






text \<open>The three equalities a report's summary is expected to satisfy.\<close>

definition consistent :: "report \<Rightarrow> bool" where
  "consistent rep =
     (total (summary rep) = length (items rep)
      \<and> sum_list (map snd (by_type (summary rep))) = total (summary rep)
      \<and> sum_list (map snd (by_page (summary rep))) = total (summary rep))"

section \<open>Example inputs\<close>

definition example_word :: "string \<Rightarrow> real \<Rightarrow> string option \<Rightarrow> word" where
  "example_word txt x t =
     \<lparr>w_text = Some txt,
      w_bbox = Some \<lparr>bbox_x = x, bbox_y = 50, bbox_w = 40, bbox_h = 10\<rparr>,
      w_box = None, w_bbox_px = None, w_conf = Some (Coercible 90), w_source = Some ''ocr'',
      w_pii = Some \<lparr>is_pii = True, pii_type = t, pii_source = None\<rparr>\<rparr>"

definition letter_page :: rect where
  "letter_page = \<lparr>rect_x0 = 0, rect_y0 = 0, rect_x1 = 612, rect_y1 = 792\<rparr>"

definition example_doc :: document where
  "example_doc =
     [\<lparr>p_page = Some 1, p_width = Some 2550, p_height = Some 3300,
       p_words = [example_word ''john@x.com'' 100 (Some ''email''),
                  example_word ''Main'' 200 (Some ''address'')]\<rparr>]"

definition plain_word :: "string \<Rightarrow> word" where
  "plain_word txt =
     \<lparr>w_text = Some txt, w_bbox = None, w_box = None, w_bbox_px = None,
      w_conf = None, w_source = Some ''ocr'', w_pii = None\<rparr>"

definition example_words :: "word list" where
  "example_words = map plain_word
     [''Contact'', ''john@x.com'', ''at'', ''12'', ''Main'', ''Street'', ''192.168.1.5'']"

text \<open>Stand-ins for the three patterns, enough for the example words.\<close>

definition example_regexes :: regexes where
  "example_regexes =
     \<lparr>email_re = (\<lambda>s. CHR ''@'' \<in> set s), phone_re = (\<lambda>s. False),
      ipv4_re = (\<lambda>s. s = ''192.168.1.5'')\<rparr>"

text \<open>
  A remote classifier that raises on a one-word chunk and otherwise answers with two
  entries for index 1 and one entry out of range.
\<close>

definition example_post :: "word list \<Rightarrow> response" where
  "example_post ws =
     (if length ws = 1 then Raises
      else Redactions [\<lparr>resp_index = Some 1, resp_type = Some ''email''\<rparr>,
                       \<lparr>resp_index = Some 1, resp_type = Some ''name''\<rparr>,
                       \<lparr>resp_index = Some 9, resp_type = Some ''phone''\<rparr>])"

text \<open>A remote classifier that names index 0 twice, with two different types.\<close>

definition duplicate_post :: "word list \<Rightarrow> response" where
  "duplicate_post ws =
     Redactions [\<lparr>resp_index = Some 0, resp_type = Some ''email''\<rparr>,
                 \<lparr>resp_index = Some 0, resp_type = Some ''name''\<rparr>]"

section \<open>Properties of type normalization\<close>

lemma normalize_type_in_vocabulary: "normalize_type t \<in> set vocabulary"
  by (auto simp: normalize_type_def vocabulary_def DIRECT_TYPES_def Let_def split: option.splits)

lemma normalize_type_fixes_vocabulary:
  "v \<in> set vocabulary \<Longrightarrow> normalize_type (Some v) = v"
proof -
  have "normalize_type (Some ''name'') = ''name''" by code_simp
  moreover have "normalize_type (Some ''email'') = ''email''" by code_simp
  moreover have "normalize_type (Some ''phone'') = ''phone''" by code_simp
  moreover have "normalize_type (Some ''address'') = ''address''" by code_simp
  moreover have "normalize_type (Some ''ip'') = ''ip''" by code_simp
  moreover have "normalize_type (Some ''id_number'') = ''id_number''" by code_simp
  moreover have "normalize_type (Some ''password'') = ''password''" by code_simp
  moreover have "normalize_type (Some ''other'') = ''other''" by code_simp
  moreover assume "v \<in> set vocabulary"
  ultimately show ?thesis by (auto simp: vocabulary_def)
qed

lemma normalize_type_idem: "normalize_type (Some (normalize_type t)) = normalize_type t"
  by (rule normalize_type_fixes_vocabulary [OF normalize_type_in_vocabulary])

lemma lower_empty_iff: "lower s = lower s' \<Longrightarrow> (s = []) = (s' = [])"
  by (auto simp: lower_def)

lemma normalize_type_case_insensitive:
  "lower s = lower s' \<Longrightarrow> normalize_type (Some s) = normalize_type (Some s')"
  using lower_empty_iff [of s s'] by (simp add: normalize_type_def)

lemma strip_Nil: "strip [] = []"
  by (simp add: strip_def)

lemma aliases_disjoint:
  "a \<in> set ID_ALIASES \<Longrightarrow> a \<notin> set NAME_ALIASES \<and> a \<notin> set DIRECT_TYPES \<and> a \<noteq> []"
  by (auto simp: ID_ALIASES_def NAME_ALIASES_def DIRECT_TYPES_def)

lemma normalize_type_id_alias:
  assumes "strip (lower s) \<in> set ID_ALIASES"
  shows "normalize_type (Some s) = ''id_number''"
proof -
  have "s \<noteq> []"
    using assms aliases_disjoint [of "strip (lower s)"] by (auto simp: lower_def strip_Nil)
  then show ?thesis
    using assms aliases_disjoint [of "strip (lower s)"] by (simp add: normalize_type_def)
qed

lemma normalize_type_name_alias:
  assumes "strip (lower s) \<in> set NAME_ALIASES"
  shows "normalize_type (Some s) = ''name''"
proof -
  have "strip (lower s) \<noteq> []"
    using assms by (auto simp: NAME_ALIASES_def)
  then have "s \<noteq> []"
    by (auto simp: lower_def strip_Nil)
  then show ?thesis
    using assms by (simp add: normalize_type_def)
qed

lemma normalize_type_unrecognized:
  assumes "strip (lower s) \<notin> set NAME_ALIASES \<union> set DIRECT_TYPES \<union> set ID_ALIASES"
  shows "normalize_type (Some s) = ''other''"
  using assms by (simp add: normalize_type_def)

text \<open>
  Claim C5. Type normalization is idempotent, always lands in the fixed vocabulary,
  does not depend on letter case (two strings with the same lower-casing normalize
  alike), sends every string whose lowered, stripped form is an id alias to
  \<open>id_number\<close> and every one whose form is a name alias to \<open>name\<close> (with the
  examples ssn, SSN, Tax_ID, bank_account, full_name, surname), sends every string
  found in none of the tables to \<open>other\<close>, and sends an absent or empty type to
  \<open>other\<close>.
\<close>

theorem normalize_type_spec:
  "normalize_type (Some (normalize_type t)) = normalize_type t
   \<and> normalize_type t \<in> set vocabulary
   \<and> (lower s = lower s' \<longrightarrow> normalize_type (Some s) = normalize_type (Some s'))
   \<and> (strip (lower a) \<in> set ID_ALIASES \<longrightarrow> normalize_type (Some a) = ''id_number'')
   \<and> normalize_type (Some ''ssn'') = ''id_number''
   \<and> normalize_type (Some ''SSN'') = ''id_number''
   \<and> normalize_type (Some ''Tax_ID'') = ''id_number''
   \<and> normalize_type (Some ''bank_account'') = ''id_number''
   \<and> (strip (lower b) \<in> set NAME_ALIASES \<longrightarrow> normalize_type (Some b) = ''name'')
   \<and> normalize_type (Some ''full_name'') = ''name''
   \<and> normalize_type (Some ''surname'') = ''name''
   \<and> (strip (lower u) \<notin> set NAME_ALIASES \<union> set DIRECT_TYPES \<union> set ID_ALIASES
        \<longrightarrow> normalize_type (Some u) = ''other'')
   \<and> normalize_type None = ''other''
   \<and> normalize_type (Some []) = ''other''"
proof -
  have ex1: "normalize_type (Some ''ssn'') = ''id_number''" by code_simp
  have ex2: "normalize_type (Some ''SSN'') = ''id_number''" by code_simp
  have ex3: "normalize_type (Some ''Tax_ID'') = ''id_number''" by code_simp
  have ex4: "normalize_type (Some ''bank_account'') = ''id_number''" by code_simp
  have ex5: "normalize_type (Some ''full_name'') = ''name''" by code_simp
  have ex6: "normalize_type (Some ''surname'') = ''name''" by code_simp
  have e1: "normalize_type None = ''other''" by (simp add: normalize_type_def)
  have e2: "normalize_type (Some []) = ''other''" by (simp add: normalize_type_def)
  show ?thesis
    using normalize_type_idem [of t] normalize_type_in_vocabulary [of t]
      normalize_type_case_insensitive [of s s'] normalize_type_id_alias [of a]
      normalize_type_name_alias [of b] normalize_type_unrecognized [of u]
      ex1 ex2 ex3 ex4 ex5 ex6 e1 e2
    by blast
qed

theorem normalize_type_spec_witness:
  "lower ''Email'' = lower ''EMAIL''
   \<and> normalize_type (Some ''Email'') = normalize_type (Some ''EMAIL'')
   \<and> strip (lower '' Routing_Number '') \<in> set ID_ALIASES
   \<and> normalize_type (Some '' Routing_Number '') = ''id_number''
   \<and> strip (lower ''Given_Name'') \<in> set NAME_ALIASES
   \<and> normalize_type (Some ''Given_Name'') = ''name''
   \<and> strip (lower ''username'') \<notin> set NAME_ALIASES \<union> set DIRECT_TYPES \<union> set ID_ALIASES
   \<and> normalize_type (Some ''username'') = ''other''"
proof -
  have h1: "lower ''Email'' = lower ''EMAIL''" by code_simp
  have h2: "strip (lower '' Routing_Number '') \<in> set ID_ALIASES" by code_simp
  have h3: "strip (lower ''Given_Name'') \<in> set NAME_ALIASES" by code_simp
  have h4: "strip (lower ''username'') \<notin> set NAME_ALIASES \<union> set DIRECT_TYPES \<union> set ID_ALIASES"
    by code_simp
  show ?thesis
    using h1 h2 h3 h4
      normalize_type_spec [of "Some ''x''" "''Email''" "''EMAIL''" "'' Routing_Number ''"
        "''Given_Name''" "''username''"]
    by blast
qed

section \<open>Binary64 rounding\<close>

lemma round_half_even_int: "round_half_even (of_int k) = k"
  by (simp add: round_half_even_def)

lemma round_half_even_near:
  assumes "\<bar>y - of_int m\<bar> < 1 / 2"
  shows "round_half_even y = m"
proof (cases "of_int m \<le> y")
  case True
  then have "\<lfloor>y\<rfloor> = m" using assms by (intro floor_unique) auto
  then show ?thesis using assms True by (simp add: round_half_even_def)
next
  case False
  then have "\<lfloor>y\<rfloor> = m - 1" using assms by (intro floor_unique) auto
  then show ?thesis using assms False by (auto simp: round_half_even_def Let_def)
qed

lemma round_half_even_error: "\<bar>of_int (round_half_even y) - y\<bar> \<le> 1 / 2"
proof -
  have "of_int \<lfloor>y\<rfloor> \<le> y" "y < of_int \<lfloor>y\<rfloor> + 1" by linarith+
  then show ?thesis
    by (auto simp: round_half_even_def Let_def)
qed

lemma exp_up_range: "e \<le> 971 \<Longrightarrow> e \<le> exp_up x e \<and> exp_up x e \<le> 971"
proof (induction x e rule: exp_up.induct)
  case (1 x e)
  show ?case
    using "1.IH" "1.prems" by (subst (1 2) exp_up.simps) auto
qed

lemma exp_up_upper: "\<bar>x\<bar> < 2 powi (exp_up x e + 53) \<or> 971 \<le> exp_up x e"
proof (induction x e rule: exp_up.induct)
  case (1 x e)
  show ?case
    using "1.IH" by (subst (1 2) exp_up.simps) auto
qed

lemma exp_down_range: "- 1074 \<le> e \<Longrightarrow> - 1074 \<le> exp_down x e \<and> exp_down x e \<le> e"
proof (induction x e rule: exp_down.induct)
  case (1 x e)
  show ?case
    using "1.IH" "1.prems" by (subst (1 2) exp_down.simps) auto
qed

lemma exp_down_lower: "exp_down x e \<le> - 1074 \<or> 2 powi (exp_down x e + 52) \<le> \<bar>x\<bar>"
proof (induction x e rule: exp_down.induct)
  case (1 x e)
  show ?case
    using "1.IH" by (subst (1 2) exp_down.simps) auto
qed

lemma exp_down_upper: "exp_down x e = e \<or> \<bar>x\<bar> < 2 powi (exp_down x e + 53)"
proof (induction x e rule: exp_down.induct)
  case (1 x e)
  show ?case
  proof (cases "- 1074 < e \<and> \<bar>x\<bar> < 2 powi (e + 52)")
    case True
    then have u: "exp_down x e = exp_down x (e - 1)"
      by (subst exp_down.simps) simp
    from "1.IH" True have "exp_down x (e - 1) = e - 1 \<or> \<bar>x\<bar> < 2 powi (exp_down x (e - 1) + 53)"
      by simp
    moreover have "e - 1 + 53 = e + 52" by simp
    ultimately show ?thesis
      using True u by (metis)
  next
    case False
    then have "exp_down x e = e" by (subst exp_down.simps) auto
    then show ?thesis by simp
  qed
qed

lemma ulp_exp_range: "- 1074 \<le> ulp_exp x \<and> ulp_exp x \<le> 971"
  using exp_up_range [of 0 x] exp_down_range [of "exp_up x 0" x] by (simp add: ulp_exp_def)

lemma ulp_exp_lower: "ulp_exp x = - 1074 \<or> 2 powi (ulp_exp x + 52) \<le> \<bar>x\<bar>"
  using exp_down_lower [of x "exp_up x 0"] ulp_exp_range [of x] by (auto simp: ulp_exp_def)

lemma ulp_exp_upper: "\<bar>x\<bar> < 2 powi (ulp_exp x + 53) \<or> ulp_exp x = 971"
  using exp_down_upper [of x "exp_up x 0"] exp_up_upper [of x 0] ulp_exp_range [of x]
  by (auto simp: ulp_exp_def)

lemma powi2_less_imp:
  fixes a b :: int
  assumes "(2::real) powi a \<le> y" "y < 2 powi b"
  shows "a < b"
proof (rule ccontr)
  assume "\<not> a < b"
  then have "b \<le> a" by simp
  then have "(2::real) powi b \<le> 2 powi a"
    by (intro power_int_increasing) auto
  then show False using assms by linarith
qed

lemma ulp_exp_unique:
  assumes "- 1074 \<le> e" "e \<le> 971" "2 powi (e + 52) \<le> \<bar>x\<bar>" "\<bar>x\<bar> < 2 powi (e + 53)"
  shows "ulp_exp x = e"
proof -
  have "ulp_exp x \<le> e"
    using ulp_exp_lower [of x] assms(1,4) powi2_less_imp [of "ulp_exp x + 52" "\<bar>x\<bar>" "e + 53"]
    by auto
  moreover have "e \<le> ulp_exp x"
    using ulp_exp_upper [of x] assms(2,3) powi2_less_imp [of "e + 52" "\<bar>x\<bar>" "ulp_exp x + 53"]
    by auto
  ultimately show ?thesis by simp
qed

lemma fl64_certificate:
  assumes "- 1074 \<le> e" "e \<le> 971" "2 powi (e + 52) \<le> \<bar>x\<bar>" "\<bar>x\<bar> < 2 powi (e + 53)"
    and "\<bar>x / 2 powi e - of_int m\<bar> < 1 / 2"
  shows "fl64 x = of_int m * 2 powi e"
  using ulp_exp_unique [OF assms(1-4)] round_half_even_near [OF assms(5)]
  by (simp add: fl64_def)

lemma fl64_half_ulp: "\<bar>fl64 x - x\<bar> \<le> 2 powi ulp_exp x / 2"
proof -
  let ?s = "(2::real) powi ulp_exp x"
  have s: "0 < ?s" by simp
  have "\<bar>of_int (round_half_even (x / ?s)) - x / ?s\<bar> \<le> 1 / 2"
    by (rule round_half_even_error)
  then have "\<bar>of_int (round_half_even (x / ?s)) - x / ?s\<bar> * ?s \<le> 1 / 2 * ?s"
    using s by (intro mult_right_mono) auto
  moreover have "\<bar>of_int (round_half_even (x / ?s)) - x / ?s\<bar> * ?s = \<bar>fl64 x - x\<bar>"
  proof -
    have "\<bar>of_int (round_half_even (x / ?s)) - x / ?s\<bar> * ?s
            = \<bar>(of_int (round_half_even (x / ?s)) - x / ?s) * ?s\<bar>"
      using s by (simp add: abs_mult)
    also have "(of_int (round_half_even (x / ?s)) - x / ?s) * ?s = fl64 x - x"
      using s by (simp add: fl64_def algebra_simps)
    finally show ?thesis .
  qed
  ultimately show ?thesis by simp
qed

lemma fl64_rel_error:
  assumes "2 powi (- 1022) \<le> \<bar>x\<bar>" "\<bar>x\<bar> < 2 powi 1024"
  shows "\<bar>fl64 x - x\<bar> \<le> 2 powi (- 53) * \<bar>x\<bar>"
proof -
  have "2 powi (ulp_exp x + 52) \<le> \<bar>x\<bar>"
    using ulp_exp_lower [of x] assms(1) by auto
  moreover have "(2::real) powi ulp_exp x / 2 = 2 powi (- 53) * 2 powi (ulp_exp x + 52)"
    by (simp add: power_int_add)
  ultimately have "2 powi ulp_exp x / 2 \<le> 2 powi (- 53) * \<bar>x\<bar>"
    by (simp add: mult_left_mono)
  then show ?thesis
    using fl64_half_ulp [of x] by linarith
qed

lemma fl64_int:
  assumes "\<bar>n\<bar> < 2 ^ 53"
  shows "fl64 (of_int n) = of_int n"
proof -
  let ?x = "of_int n :: real"
  have "\<bar>?x\<bar> < 2 powi 53"
  proof -
    have "\<bar>?x\<bar> = of_int \<bar>n\<bar>" by simp
    also have "\<dots> < of_int (2 ^ 53)" using assms by (simp only: of_int_less_iff)
    finally show ?thesis by simp
  qed
  then have "exp_up ?x 0 = 0"
    by (subst exp_up.simps) simp
  then have le: "ulp_exp ?x \<le> 0"
    using exp_down_range [of 0 ?x] by (simp add: ulp_exp_def)
  define k where "k = nat (- ulp_exp ?x)"
  have e: "ulp_exp ?x = - int k" using le by (simp add: k_def)
  have "?x / 2 powi ulp_exp ?x = of_int (n * 2 ^ k)"
    by (simp add: e power_int_minus field_simps)
  then have "round_half_even (?x / 2 powi ulp_exp ?x) = n * 2 ^ k"
    by (simp only: round_half_even_int)
  then show ?thesis
    by (simp add: fl64_def e power_int_minus)
qed

lemma fl64_numeral [simp]: "(numeral k :: int) < 2 ^ 53 \<Longrightarrow> fl64 (numeral k) = numeral k"
  using fl64_int [of "numeral k"] by simp

lemma fl64_neg_numeral [simp]:
  "(numeral k :: int) < 2 ^ 53 \<Longrightarrow> fl64 (- numeral k) = - numeral k"
  using fl64_int [of "- numeral k"] by simp

lemma fl64_0 [simp]: "fl64 0 = 0"
  using fl64_int [of 0] by simp

lemma fl64_1 [simp]: "fl64 1 = 1"
  using fl64_int [of 1] by simp

text \<open>The scale at 300 DPI: \<open>72 / 300\<close>, in lowest terms, rounds to \<open>0.24\<close> as binary64 has it.\<close>

lemma fl64_scale_300: "fl64 (6 / 25) = 1080863910568919 / 4503599627370496"
proof -
  have c: "fl64 (6 / 25) = of_int 8646911284551352 * 2 powi (- 55)"
    by (rule fl64_certificate) (simp_all add: power_int_minus)
  show ?thesis
    by (subst c) (simp add: power_int_minus)
qed

text \<open>\<open>98\<close> times that scale (the product in lowest terms); Python prints the result as \<open>23.52\<close>.\<close>

lemma fl64_x0_300: "fl64 (52962331617877031 / 2251799813685248) = 6620291452234629 / 281474976710656"
proof -
  have c: "fl64 (52962331617877031 / 2251799813685248) = of_int 6620291452234629 * 2 powi (- 48)"
    by (rule fl64_certificate) (simp_all add: power_int_minus)
  show ?thesis
    by (subst c) (simp add: power_int_minus)
qed

text \<open>\<open>48\<close> times that scale (the product in lowest terms); Python prints the result as \<open>11.52\<close>.\<close>

lemma fl64_y0_300: "fl64 (3242591731706757 / 281474976710656) = 3242591731706757 / 281474976710656"
proof -
  have c: "fl64 (3242591731706757 / 281474976710656) = of_int 6485183463413514 * 2 powi (- 49)"
    by (rule fl64_certificate) (simp_all add: power_int_minus)
  show ?thesis
    by (subst c) (simp add: power_int_minus)
qed

text \<open>\<open>142\<close> times that scale (the product in lowest terms); Python prints the result as \<open>34.08\<close>.\<close>

lemma fl64_x1_300: "fl64 (76741337650393249 / 2251799813685248) = 2398166801574789 / 70368744177664"
proof -
  have c: "fl64 (76741337650393249 / 2251799813685248) = of_int 4796333603149578 * 2 powi (- 47)"
    by (rule fl64_certificate) (simp_all add: power_int_minus)
  show ?thesis
    by (subst c) (simp add: power_int_minus)
qed

text \<open>\<open>62\<close> times that scale (the product in lowest terms); Python prints the result as \<open>14.879999999999999\<close>.\<close>

lemma fl64_y1_300: "fl64 (33506781227636489 / 2251799813685248) = 4188347653454561 / 281474976710656"
proof -
  have c: "fl64 (33506781227636489 / 2251799813685248) = of_int 8376695306909122 * 2 powi (- 49)"
    by (rule fl64_certificate) (simp_all add: power_int_minus)
  show ?thesis
    by (subst c) (simp add: power_int_minus)
qed

text \<open>The binary64 value nearest to \<open>23.52\<close>.\<close>

lemma fl64_23_52: "fl64 (588 / 25) = 6620291452234629 / 281474976710656"
proof -
  have c: "fl64 (588 / 25) = of_int 6620291452234629 * 2 powi (- 48)"
    by (rule fl64_certificate) (simp_all add: power_int_minus)
  show ?thesis
    by (subst c) (simp add: power_int_minus)
qed

text \<open>The binary64 value nearest to \<open>11.52\<close>.\<close>

lemma fl64_11_52: "fl64 (288 / 25) = 3242591731706757 / 281474976710656"
proof -
  have c: "fl64 (288 / 25) = of_int 6485183463413514 * 2 powi (- 49)"
    by (rule fl64_certificate) (simp_all add: power_int_minus)
  show ?thesis
    by (subst c) (simp add: power_int_minus)
qed

text \<open>The binary64 value nearest to \<open>34.08\<close>.\<close>

lemma fl64_34_08: "fl64 (852 / 25) = 2398166801574789 / 70368744177664"
proof -
  have c: "fl64 (852 / 25) = of_int 4796333603149578 * 2 powi (- 47)"
    by (rule fl64_certificate) (simp_all add: power_int_minus)
  show ?thesis
    by (subst c) (simp add: power_int_minus)
qed

text \<open>The binary64 value nearest to \<open>14.88\<close>.\<close>

lemma fl64_14_88: "fl64 (372 / 25) = 8376695306909123 / 562949953421312"
proof -
  have c: "fl64 (372 / 25) = of_int 8376695306909123 * 2 powi (- 49)"
    by (rule fl64_certificate) (simp_all add: power_int_minus)
  show ?thesis
    by (subst c) (simp add: power_int_minus)
qed

lemma pixel_scale_300: "pixel_scale 300 = Inr (1080863910568919 / 4503599627370496)"
  by (simp add: pixel_scale_def fl64_scale_300)

lemma pixel_scale_72: "pixel_scale 72 = Inr 1"
  by (simp add: pixel_scale_def)

lemma expand_example:
  "expand_bbox \<lparr>bbox_x = 100, bbox_y = 50, bbox_w = 40, bbox_h = 10\<rparr> 2 =
     \<lparr>bbox_x = 98, bbox_y = 48, bbox_w = 44, bbox_h = 14\<rparr>"
  by (simp add: expand_bbox_def)

lemma rect_example_300:
  "px_to_pdf_rect \<lparr>bbox_x = 98, bbox_y = 48, bbox_w = 44, bbox_h = 14\<rparr>
       (1080863910568919 / 4503599627370496) =
     \<lparr>rect_x0 = 6620291452234629 / 281474976710656, rect_y0 = 3242591731706757 / 281474976710656,
      rect_x1 = 2398166801574789 / 70368744177664, rect_y1 = 4188347653454561 / 281474976710656\<rparr>"
  by (simp add: px_to_pdf_rect_def fl64_x0_300 fl64_y0_300 fl64_x1_300 fl64_y1_300)

lemma expand_bbox_int:
  assumes "\<bar>x\<bar> \<le> 2 ^ 50" "\<bar>y\<bar> \<le> 2 ^ 50" "\<bar>w\<bar> \<le> 2 ^ 50" "\<bar>h\<bar> \<le> 2 ^ 50" "\<bar>m\<bar> \<le> 2 ^ 50"
  shows "expand_bbox \<lparr>bbox_x = of_int x, bbox_y = of_int y, bbox_w = of_int w, bbox_h = of_int h\<rparr>
           (of_int m)
         = \<lparr>bbox_x = of_int (x - m), bbox_y = of_int (y - m),
            bbox_w = of_int (w + 2 * m), bbox_h = of_int (h + 2 * m)\<rparr>"
proof -
  have a: "fl64 (of_int x - of_int m) = of_int (x - m)"
    using fl64_int [of "x - m"] assms by simp
  have b: "fl64 (of_int y - of_int m) = of_int (y - m)"
    using fl64_int [of "y - m"] assms by simp
  have c: "fl64 (2 * of_int m) = of_int (2 * m)"
    using fl64_int [of "2 * m"] assms by simp
  have d: "fl64 (of_int w + of_int (2 * m)) = of_int (w + 2 * m)"
    using fl64_int [of "w + 2 * m"] assms by simp
  have e: "fl64 (of_int h + of_int (2 * m)) = of_int (h + 2 * m)"
    using fl64_int [of "h + 2 * m"] assms by simp
  show ?thesis
    by (simp only: expand_bbox_def bbox.simps a b c d e)
qed

lemma px_to_pdf_rect_int:
  assumes "\<bar>a + c\<bar> < 2 ^ 53" "\<bar>b + d\<bar> < 2 ^ 53"
  shows "px_to_pdf_rect \<lparr>bbox_x = of_int a, bbox_y = of_int b, bbox_w = of_int c, bbox_h = of_int d\<rparr> s
         = \<lparr>rect_x0 = fl64 (of_int a * s), rect_y0 = fl64 (of_int b * s),
            rect_x1 = fl64 (of_int (a + c) * s), rect_y1 = fl64 (of_int (b + d) * s)\<rparr>"
proof -
  have x: "fl64 (of_int a + of_int c) = of_int (a + c)"
    using fl64_int [of "a + c"] assms by simp
  have y: "fl64 (of_int b + of_int d) = of_int (b + d)"
    using fl64_int [of "b + d"] assms by simp
  show ?thesis
    by (simp only: px_to_pdf_rect_def bbox.simps x y)
qed

lemma scale_range:
  assumes "d \<noteq> 0" "\<bar>d\<bar> < 2 ^ 53"
  shows "2 powi (- 47) \<le> \<bar>72 / real_of_int d\<bar>" "\<bar>72 / real_of_int d\<bar> \<le> 72"
proof -
  have d1: "1 \<le> \<bar>real_of_int d\<bar>" using assms(1) by (simp add: abs_if)
  have d2: "\<bar>real_of_int d\<bar> \<le> 2 ^ 53"
  proof -
    have "real_of_int \<bar>d\<bar> \<le> real_of_int (2 ^ 53)" using assms(2) by (simp only: of_int_le_iff)
    then show ?thesis by simp
  qed
  have "\<bar>72 / real_of_int d\<bar> = 72 / \<bar>real_of_int d\<bar>" by simp
  moreover have "72 / \<bar>real_of_int d\<bar> \<le> 72" using d1 by (simp add: field_simps)
  moreover have "72 / 2 ^ 53 \<le> 72 / \<bar>real_of_int d\<bar>"
    using d1 d2 by (intro divide_left_mono) auto
  moreover have "(2::real) powi (- 47) \<le> 72 / 2 ^ 53" by (simp add: power_int_minus)
  ultimately show "2 powi (- 47) \<le> \<bar>72 / real_of_int d\<bar>" "\<bar>72 / real_of_int d\<bar> \<le> 72"
    by linarith+
qed

lemma fl64_of_int_dpi: "\<bar>d\<bar> < 2 ^ 53 \<Longrightarrow> fl64 (real_of_int d) = real_of_int d"
  by (rule fl64_int)

lemma pixel_scale_error:
  assumes "d \<noteq> 0" "\<bar>d\<bar> < 2 ^ 53"
  shows "pixel_scale d = Inr (fl64 (72 / real_of_int d))"
    and "\<bar>fl64 (72 / real_of_int d) - 72 / real_of_int d\<bar> \<le> 2 powi (- 53) * \<bar>72 / real_of_int d\<bar>"
proof -
  have "\<not> (2 ^ 1024 - 2 ^ 970 \<le> \<bar>d\<bar>)" using assms(2) by simp
  then show "pixel_scale d = Inr (fl64 (72 / real_of_int d))"
    using assms by (simp add: pixel_scale_def fl64_of_int_dpi)
  have lo: "(2::real) powi (- 1022) \<le> 2 powi (- 47)"
    by (intro power_int_increasing) auto
  have hi: "(72::real) < 2 powi 1024"
  proof -
    have "(72::real) < 2 powi 7" by simp
    also have "\<dots> \<le> 2 powi 1024" by (intro power_int_increasing) auto
    finally show ?thesis .
  qed
  show "\<bar>fl64 (72 / real_of_int d) - 72 / real_of_int d\<bar> \<le> 2 powi (- 53) * \<bar>72 / real_of_int d\<bar>"
    using scale_range [OF assms] lo hi by (intro fl64_rel_error) linarith+
qed

lemma corner_error:
  assumes "\<bar>k\<bar> < 2 ^ 53" "d \<noteq> 0" "\<bar>d\<bar> < 2 ^ 53"
  shows "\<bar>fl64 (real_of_int k * fl64 (72 / real_of_int d)) - real_of_int k * (72 / real_of_int d)\<bar>
         \<le> 2 powi (- 51) * \<bar>real_of_int k * (72 / real_of_int d)\<bar>"
proof (cases "k = 0")
  case True
  then show ?thesis by simp
next
  case False
  define t where "t = 72 / real_of_int d"
  define s where "s = fl64 t"
  define u :: real where "u = 2 powi (- 53)"
  define K where "K = real_of_int k"
  have u: "0 < u" "u \<le> 1" "2 powi (- 51) = 4 * u"
    by (simp_all add: u_def power_int_minus)
  have K1: "1 \<le> \<bar>K\<bar>" using False by (simp add: K_def abs_if)
  have K2: "\<bar>K\<bar> \<le> 2 ^ 53"
  proof -
    have "real_of_int \<bar>k\<bar> \<le> real_of_int (2 ^ 53)" using assms(1) by (simp only: of_int_le_iff)
    then show ?thesis by (simp add: K_def)
  qed
  have t: "2 powi (- 47) \<le> \<bar>t\<bar>" "\<bar>t\<bar> \<le> 72"
    using scale_range [OF assms(2,3)] by (simp_all add: t_def)
  have st: "\<bar>s - t\<bar> \<le> u * \<bar>t\<bar>"
    using pixel_scale_error(2) [OF assms(2,3)] by (simp add: s_def t_def u_def)
  have PE: "\<bar>K * s - K * t\<bar> \<le> u * \<bar>K * t\<bar>"
  proof -
    have "\<bar>K * s - K * t\<bar> = \<bar>K\<bar> * \<bar>s - t\<bar>" by (simp add: abs_mult right_diff_distrib [symmetric])
    also have "\<dots> \<le> \<bar>K\<bar> * (u * \<bar>t\<bar>)" using st by (intro mult_left_mono) auto
    finally show ?thesis by (simp add: abs_mult algebra_simps)
  qed
  have E_lo: "2 powi (- 47) \<le> \<bar>K * t\<bar>"
  proof -
    have "\<bar>t\<bar> \<le> \<bar>K\<bar> * \<bar>t\<bar>" using K1 by (simp add: mult_le_cancel_right1)
    then show ?thesis using t(1) by (simp add: abs_mult)
  qed
  have E_hi: "\<bar>K * t\<bar> \<le> 2 ^ 53 * 72"
  proof -
    have "\<bar>K\<bar> * \<bar>t\<bar> \<le> 2 ^ 53 * 72"
      using K2 t(2) by (intro mult_mono) auto
    then show ?thesis by (simp only: abs_mult)
  qed
  have P_hi: "\<bar>K * s\<bar> \<le> 2 * \<bar>K * t\<bar>"
  proof -
    have "\<bar>K * s\<bar> \<le> \<bar>K * t\<bar> + u * \<bar>K * t\<bar>" using PE by linarith
    also have "\<dots> \<le> \<bar>K * t\<bar> + 1 * \<bar>K * t\<bar>" using u(2) by (intro add_left_mono mult_right_mono) auto
    finally show ?thesis by simp
  qed
  have P_lo: "\<bar>K * t\<bar> / 2 \<le> \<bar>K * s\<bar>"
  proof -
    have "u \<le> 1 / 2" by (simp add: u_def power_int_minus)
    then have "u * \<bar>K * t\<bar> \<le> 1 / 2 * \<bar>K * t\<bar>" by (intro mult_right_mono) auto
    then show ?thesis using PE by linarith
  qed
  have r1: "2 powi (- 1022) \<le> \<bar>K * s\<bar>"
  proof -
    have "(2::real) powi (- 1022) \<le> 2 powi (- 48)" by (intro power_int_increasing) auto
    also have "\<dots> = 2 powi (- 47) / 2" by (simp add: power_int_minus)
    also have "\<dots> \<le> \<bar>K * t\<bar> / 2" using E_lo by simp
    finally show ?thesis using P_lo by linarith
  qed
  have r2: "\<bar>K * s\<bar> < 2 powi 1024"
  proof -
    have "\<bar>K * s\<bar> \<le> 2 * (2 ^ 53 * 72)" using P_hi E_hi by linarith
    also have "\<dots> < (2::real) powi 61" by simp
    also have "\<dots> \<le> 2 powi 1024" by (intro power_int_increasing) auto
    finally show ?thesis .
  qed
  have "\<bar>fl64 (K * s) - K * s\<bar> \<le> u * \<bar>K * s\<bar>"
    using fl64_rel_error [OF r1 r2] by (simp add: u_def)
  also have "\<dots> \<le> u * (2 * \<bar>K * t\<bar>)" using P_hi u(1) by (intro mult_left_mono) auto
  finally have FP: "\<bar>fl64 (K * s) - K * s\<bar> \<le> 2 * u * \<bar>K * t\<bar>" by simp
  have "\<bar>fl64 (K * s) - K * t\<bar> \<le> \<bar>fl64 (K * s) - K * s\<bar> + \<bar>K * s - K * t\<bar>" by linarith
  also have "\<dots> \<le> 2 * u * \<bar>K * t\<bar> + u * \<bar>K * t\<bar>" using FP PE by linarith
  also have "\<dots> \<le> 4 * u * \<bar>K * t\<bar>" using u(1) by (simp add: algebra_simps)
  finally have fin: "\<bar>fl64 (K * s) - K * t\<bar> \<le> 4 * u * \<bar>K * t\<bar>" .
  show ?thesis
    using fin unfolding u(3) K_def s_def t_def .
qed

section \<open>Geometry of the redaction rectangles\<close>

text \<open>
  Claim C2, as stated, fails: at 300 DPI, for the box \<open>{100, 50, 40, 10}\<close> and margin
  2, the lower edge computed by the code is \<open>62 * 0.24\<close> rounded to binary64, which
  is neither \<open>14.88\<close> nor the binary64 value nearest to \<open>14.88\<close> (Python prints it
  as \<open>14.879999999999999\<close>), so the rectangle is not
  \<open>(23.52, 11.52, 34.08, 14.88)\<close>.
\<close>

theorem pixel_to_point_exact_counterexample:
  "pixel_scale 300 = Inr (1080863910568919 / 4503599627370496)
   \<and> rect_y1 (px_to_pdf_rect (expand_bbox \<lparr>bbox_x = 100, bbox_y = 50, bbox_w = 40, bbox_h = 10\<rparr> 2)
               (1080863910568919 / 4503599627370496)) \<noteq> 14.88
   \<and> rect_y1 (px_to_pdf_rect (expand_bbox \<lparr>bbox_x = 100, bbox_y = 50, bbox_w = 40, bbox_h = 10\<rparr> 2)
               (1080863910568919 / 4503599627370496)) \<noteq> fl64 14.88
   \<and> px_to_pdf_rect (expand_bbox \<lparr>bbox_x = 100, bbox_y = 50, bbox_w = 40, bbox_h = 10\<rparr> 2)
         (1080863910568919 / 4503599627370496)
       \<noteq> \<lparr>rect_x0 = 23.52, rect_y0 = 11.52, rect_x1 = 34.08, rect_y1 = 14.88\<rparr>"
  by (simp add: pixel_scale_300 expand_example rect_example_300 fl64_14_88)

text \<open>
  Claim C2, amended. The rectangle of a flagged word before clipping is its pixel box
  grown by the margin on all four sides, with both corners multiplied by the scale,
  every operation being rounded to binary64. For a DPI \<open>d\<close> other than 0 (below
  \<open>2 ^ 53\<close> in magnitude) the scale is \<open>72 / d\<close> rounded, within relative error
  \<open>2 ^ - 53\<close>. For an integer box and margin (up to \<open>2 ^ 50\<close> in magnitude) the
  grown box is exactly \<open>{x - m, y - m, w + 2m, h + 2m}\<close>, and the four edges of the
  rectangle are \<open>x - m\<close>, \<open>y - m\<close>, \<open>x + w + m\<close> and \<open>y + h + m\<close> times the
  scale, rounded, each within relative error \<open>2 ^ - 51\<close> of the exact product with
  \<open>72 / d\<close>. At 300 DPI the box \<open>{100, 50, 40, 10}\<close> with margin 2 grows to
  \<open>{98, 48, 44, 14}\<close> and becomes the rectangle whose first three edges are the
  binary64 values nearest to \<open>23.52\<close>, \<open>11.52\<close> and \<open>34.08\<close> and whose fourth is
  one unit in the last place (\<open>2 ^ - 49\<close>) below the value nearest to \<open>14.88\<close>,
  less than \<open>10 ^ - 15\<close> away from \<open>14.88\<close>.
\<close>

theorem pixel_to_point_geometry:
  "expand_bbox b m =
     \<lparr>bbox_x = fl64 (bbox_x b - m), bbox_y = fl64 (bbox_y b - m),
      bbox_w = fl64 (bbox_w b + fl64 (2 * m)), bbox_h = fl64 (bbox_h b + fl64 (2 * m))\<rparr>
   \<and> px_to_pdf_rect e s =
     \<lparr>rect_x0 = fl64 (bbox_x e * s), rect_y0 = fl64 (bbox_y e * s),
      rect_x1 = fl64 (fl64 (bbox_x e + bbox_w e) * s),
      rect_y1 = fl64 (fl64 (bbox_y e + bbox_h e) * s)\<rparr>
   \<and> (d \<noteq> 0 \<and> \<bar>d\<bar> < 2 ^ 53 \<longrightarrow>
        pixel_scale d = Inr (fl64 (72 / real_of_int d))
        \<and> \<bar>fl64 (72 / real_of_int d) - 72 / real_of_int d\<bar>
            \<le> 2 powi (- 53) * \<bar>72 / real_of_int d\<bar>)
   \<and> (\<bar>x\<bar> \<le> 2 ^ 50 \<and> \<bar>y\<bar> \<le> 2 ^ 50 \<and> \<bar>w\<bar> \<le> 2 ^ 50 \<and> \<bar>h\<bar> \<le> 2 ^ 50 \<and> \<bar>mi\<bar> \<le> 2 ^ 50 \<longrightarrow>
        expand_bbox \<lparr>bbox_x = of_int x, bbox_y = of_int y, bbox_w = of_int w, bbox_h = of_int h\<rparr>
            (of_int mi)
          = \<lparr>bbox_x = of_int (x - mi), bbox_y = of_int (y - mi),
             bbox_w = of_int (w + 2 * mi), bbox_h = of_int (h + 2 * mi)\<rparr>
        \<and> px_to_pdf_rect
            (expand_bbox \<lparr>bbox_x = of_int x, bbox_y = of_int y, bbox_w = of_int w, bbox_h = of_int h\<rparr>
               (of_int mi)) s
          = \<lparr>rect_x0 = fl64 (of_int (x - mi) * s), rect_y0 = fl64 (of_int (y - mi) * s),
             rect_x1 = fl64 (of_int (x + w + mi) * s), rect_y1 = fl64 (of_int (y + h + mi) * s)\<rparr>
        \<and> (d \<noteq> 0 \<and> \<bar>d\<bar> < 2 ^ 53 \<longrightarrow>
             \<bar>fl64 (of_int (x - mi) * fl64 (72 / real_of_int d)) - of_int (x - mi) * (72 / real_of_int d)\<bar>
               \<le> 2 powi (- 51) * \<bar>of_int (x - mi) * (72 / real_of_int d)\<bar>
             \<and> \<bar>fl64 (of_int (y - mi) * fl64 (72 / real_of_int d)) - of_int (y - mi) * (72 / real_of_int d)\<bar>
               \<le> 2 powi (- 51) * \<bar>of_int (y - mi) * (72 / real_of_int d)\<bar>
             \<and> \<bar>fl64 (of_int (x + w + mi) * fl64 (72 / real_of_int d))
                  - of_int (x + w + mi) * (72 / real_of_int d)\<bar>
               \<le> 2 powi (- 51) * \<bar>of_int (x + w + mi) * (72 / real_of_int d)\<bar>
             \<and> \<bar>fl64 (of_int (y + h + mi) * fl64 (72 / real_of_int d))
                  - of_int (y + h + mi) * (72 / real_of_int d)\<bar>
               \<le> 2 powi (- 51) * \<bar>of_int (y + h + mi) * (72 / real_of_int d)\<bar>))
   \<and> pixel_scale 300 = Inr (fl64 0.24)
   \<and> expand_bbox \<lparr>bbox_x = 100, bbox_y = 50, bbox_w = 40, bbox_h = 10\<rparr> 2 =
        \<lparr>bbox_x = 98, bbox_y = 48, bbox_w = 44, bbox_h = 14\<rparr>
   \<and> px_to_pdf_rect (expand_bbox \<lparr>bbox_x = 100, bbox_y = 50, bbox_w = 40, bbox_h = 10\<rparr> 2)
         (fl64 0.24) =
        \<lparr>rect_x0 = fl64 23.52, rect_y0 = fl64 11.52, rect_x1 = fl64 34.08,
         rect_y1 = fl64 14.88 - 2 powi (- 49)\<rparr>
   \<and> \<bar>rect_y1 (px_to_pdf_rect (expand_bbox \<lparr>bbox_x = 100, bbox_y = 50, bbox_w = 40, bbox_h = 10\<rparr> 2)
                 (fl64 0.24)) - 14.88\<bar> < 1 / 10 ^ 15"
proof -
  have shape: "expand_bbox b m =
     \<lparr>bbox_x = fl64 (bbox_x b - m), bbox_y = fl64 (bbox_y b - m),
      bbox_w = fl64 (bbox_w b + fl64 (2 * m)), bbox_h = fl64 (bbox_h b + fl64 (2 * m))\<rparr>"
    "px_to_pdf_rect e s =
     \<lparr>rect_x0 = fl64 (bbox_x e * s), rect_y0 = fl64 (bbox_y e * s),
      rect_x1 = fl64 (fl64 (bbox_x e + bbox_w e) * s),
      rect_y1 = fl64 (fl64 (bbox_y e + bbox_h e) * s)\<rparr>"
    by (simp_all only: expand_bbox_def px_to_pdf_rect_def)
  have scale: "pixel_scale d = Inr (fl64 (72 / real_of_int d))
        \<and> \<bar>fl64 (72 / real_of_int d) - 72 / real_of_int d\<bar>
            \<le> 2 powi (- 53) * \<bar>72 / real_of_int d\<bar>"
    if "d \<noteq> 0 \<and> \<bar>d\<bar> < 2 ^ 53"
    using pixel_scale_error [of d] that by blast
  have ints: "expand_bbox \<lparr>bbox_x = of_int x, bbox_y = of_int y, bbox_w = of_int w, bbox_h = of_int h\<rparr>
            (of_int mi)
          = \<lparr>bbox_x = of_int (x - mi), bbox_y = of_int (y - mi),
             bbox_w = of_int (w + 2 * mi), bbox_h = of_int (h + 2 * mi)\<rparr>
        \<and> px_to_pdf_rect
            (expand_bbox \<lparr>bbox_x = of_int x, bbox_y = of_int y, bbox_w = of_int w, bbox_h = of_int h\<rparr>
               (of_int mi)) s
          = \<lparr>rect_x0 = fl64 (of_int (x - mi) * s), rect_y0 = fl64 (of_int (y - mi) * s),
             rect_x1 = fl64 (of_int (x + w + mi) * s), rect_y1 = fl64 (of_int (y + h + mi) * s)\<rparr>
        \<and> (d \<noteq> 0 \<and> \<bar>d\<bar> < 2 ^ 53 \<longrightarrow>
             \<bar>fl64 (of_int (x - mi) * fl64 (72 / real_of_int d)) - of_int (x - mi) * (72 / real_of_int d)\<bar>
               \<le> 2 powi (- 51) * \<bar>of_int (x - mi) * (72 / real_of_int d)\<bar>
             \<and> \<bar>fl64 (of_int (y - mi) * fl64 (72 / real_of_int d)) - of_int (y - mi) * (72 / real_of_int d)\<bar>
               \<le> 2 powi (- 51) * \<bar>of_int (y - mi) * (72 / real_of_int d)\<bar>
             \<and> \<bar>fl64 (of_int (x + w + mi) * fl64 (72 / real_of_int d))
                  - of_int (x + w + mi) * (72 / real_of_int d)\<bar>
               \<le> 2 powi (- 51) * \<bar>of_int (x + w + mi) * (72 / real_of_int d)\<bar>
             \<and> \<bar>fl64 (of_int (y + h + mi) * fl64 (72 / real_of_int d))
                  - of_int (y + h + mi) * (72 / real_of_int d)\<bar>
               \<le> 2 powi (- 51) * \<bar>of_int (y + h + mi) * (72 / real_of_int d)\<bar>)"
    if b: "\<bar>x\<bar> \<le> 2 ^ 50 \<and> \<bar>y\<bar> \<le> 2 ^ 50 \<and> \<bar>w\<bar> \<le> 2 ^ 50 \<and> \<bar>h\<bar> \<le> 2 ^ 50 \<and> \<bar>mi\<bar> \<le> 2 ^ 50"
  proof -
    have ex: "expand_bbox \<lparr>bbox_x = of_int x, bbox_y = of_int y, bbox_w = of_int w, bbox_h = of_int h\<rparr>
            (of_int mi)
          = \<lparr>bbox_x = of_int (x - mi), bbox_y = of_int (y - mi),
             bbox_w = of_int (w + 2 * mi), bbox_h = of_int (h + 2 * mi)\<rparr>"
      using b by (intro expand_bbox_int) auto
    have s1: "x - mi + (w + 2 * mi) = x + w + mi" and s2: "y - mi + (h + 2 * mi) = y + h + mi"
      by simp_all
    have k: "\<bar>x - mi\<bar> < 2 ^ 53" "\<bar>y - mi\<bar> < 2 ^ 53" "\<bar>x + w + mi\<bar> < 2 ^ 53" "\<bar>y + h + mi\<bar> < 2 ^ 53"
      using b by auto
    have px: "px_to_pdf_rect
            \<lparr>bbox_x = of_int (x - mi), bbox_y = of_int (y - mi),
             bbox_w = of_int (w + 2 * mi), bbox_h = of_int (h + 2 * mi)\<rparr> s
          = \<lparr>rect_x0 = fl64 (of_int (x - mi) * s), rect_y0 = fl64 (of_int (y - mi) * s),
             rect_x1 = fl64 (of_int (x + w + mi) * s), rect_y1 = fl64 (of_int (y + h + mi) * s)\<rparr>"
      using px_to_pdf_rect_int [of "x - mi" "w + 2 * mi" "y - mi" "h + 2 * mi" s] k
      by (simp only: s1 s2)
    show ?thesis
      using ex px corner_error [of "x - mi" d] corner_error [of "y - mi" d]
        corner_error [of "x + w + mi" d] corner_error [of "y + h + mi" d] k
      by (simp only:) blast
  qed
  have s300: "pixel_scale 300 = Inr (fl64 0.24)"
    by (simp add: pixel_scale_300 fl64_scale_300)
  have r300: "px_to_pdf_rect (expand_bbox \<lparr>bbox_x = 100, bbox_y = 50, bbox_w = 40, bbox_h = 10\<rparr> 2)
         (fl64 0.24) =
        \<lparr>rect_x0 = fl64 23.52, rect_y0 = fl64 11.52, rect_x1 = fl64 34.08,
         rect_y1 = fl64 14.88 - 2 powi (- 49)\<rparr>"
    by (simp add: expand_example fl64_scale_300 rect_example_300 fl64_23_52 fl64_11_52 fl64_34_08
        fl64_14_88 power_int_minus)
  have y300: "\<bar>rect_y1 (px_to_pdf_rect (expand_bbox \<lparr>bbox_x = 100, bbox_y = 50, bbox_w = 40, bbox_h = 10\<rparr> 2)
                 (fl64 0.24)) - 14.88\<bar> < 1 / 10 ^ 15"
    by (simp add: expand_example fl64_scale_300 rect_example_300)
  show ?thesis
    using shape scale ints s300 expand_example r300 y300 by (simp only:) blast
qed

theorem pixel_to_point_geometry_witness:
  "(150::int) \<noteq> 0 \<and> \<bar>150::int\<bar> < 2 ^ 53
   \<and> \<bar>100::int\<bar> \<le> 2 ^ 50 \<and> \<bar>50::int\<bar> \<le> 2 ^ 50 \<and> \<bar>40::int\<bar> \<le> 2 ^ 50 \<and> \<bar>10::int\<bar> \<le> 2 ^ 50
   \<and> \<bar>3::int\<bar> \<le> 2 ^ 50
   \<and> pixel_scale 150 = Inr (fl64 (72 / 150))
   \<and> \<bar>fl64 (72 / 150) - 72 / 150\<bar> \<le> 2 powi (- 53) * \<bar>72 / 150\<bar>
   \<and> expand_bbox \<lparr>bbox_x = 100, bbox_y = 50, bbox_w = 40, bbox_h = 10\<rparr> 3 =
        \<lparr>bbox_x = 97, bbox_y = 47, bbox_w = 46, bbox_h = 16\<rparr>
   \<and> rect_x1 (px_to_pdf_rect (expand_bbox \<lparr>bbox_x = 100, bbox_y = 50, bbox_w = 40, bbox_h = 10\<rparr> 3)
               (fl64 (72 / 150))) = fl64 (143 * fl64 (72 / 150))
   \<and> \<bar>fl64 (143 * fl64 (72 / 150)) - 143 * (72 / 150)\<bar> \<le> 2 powi (- 51) * \<bar>143 * (72 / 150)\<bar>"
proof -
  have h: "(150::int) \<noteq> 0 \<and> \<bar>150::int\<bar> < 2 ^ 53"
    "\<bar>100::int\<bar> \<le> 2 ^ 50 \<and> \<bar>50::int\<bar> \<le> 2 ^ 50 \<and> \<bar>40::int\<bar> \<le> 2 ^ 50 \<and> \<bar>10::int\<bar> \<le> 2 ^ 50
       \<and> \<bar>3::int\<bar> \<le> 2 ^ 50"
    by simp_all
  show ?thesis
    using h pixel_to_point_geometry
      [where d = 150 and x = 100 and y = 50 and w = 40 and h = 10 and mi = 3
         and s = "fl64 (72 / 150)"]
    by simp
qed

text \<open>
  Claim C8. The rectangle applied for a word is the intersection of its candidate
  rectangle with the page rectangle: it lies within the page, has positive width and
  height, and each side that overshoots the page sits exactly on the page boundary
  while the other sides are the candidate's own. A candidate entirely outside the
  page yields no rectangle (and no error), and a flagged word of a wanted type whose
  intersection has positive width and height gets exactly that intersection.
\<close>

theorem clipping_spec:
  assumes "w_bbox w = Some b" and "c = px_to_pdf_rect (expand_bbox b m) s"
  shows "(word_box wanted m s pg w = Some (r, t) \<longrightarrow>
            r = rect_intersect c pg
            \<and> rect_x0 pg \<le> rect_x0 r \<and> rect_y0 pg \<le> rect_y0 r
            \<and> rect_x1 r \<le> rect_x1 pg \<and> rect_y1 r \<le> rect_y1 pg
            \<and> 0 < rect_width r \<and> 0 < rect_height r
            \<and> rect_x0 r = (if rect_x0 c < rect_x0 pg then rect_x0 pg else rect_x0 c)
            \<and> rect_y0 r = (if rect_y0 c < rect_y0 pg then rect_y0 pg else rect_y0 c)
            \<and> rect_x1 r = (if rect_x1 pg < rect_x1 c then rect_x1 pg else rect_x1 c)
            \<and> rect_y1 r = (if rect_y1 pg < rect_y1 c then rect_y1 pg else rect_y1 c))
       \<and> (rect_x1 c \<le> rect_x0 pg \<or> rect_x1 pg \<le> rect_x0 c
            \<or> rect_y1 c \<le> rect_y0 pg \<or> rect_y1 pg \<le> rect_y0 c
          \<longrightarrow> word_box wanted m s pg w = None)
       \<and> (w_pii w = Some p \<and> is_pii p
            \<and> wt = lower (case pii_type p of None \<Rightarrow> ''other''
                           | Some ty \<Rightarrow> if ty = [] then ''other'' else ty)
            \<and> wt \<in> wanted
            \<and> 0 < rect_width (rect_intersect c pg) \<and> 0 < rect_height (rect_intersect c pg)
          \<longrightarrow> word_box wanted m s pg w = Some (rect_intersect c pg, wt))"
proof -
  have clipped: "(word_box wanted m s pg w = Some (r, t) \<longrightarrow>
            r = rect_intersect c pg
            \<and> rect_x0 pg \<le> rect_x0 r \<and> rect_y0 pg \<le> rect_y0 r
            \<and> rect_x1 r \<le> rect_x1 pg \<and> rect_y1 r \<le> rect_y1 pg
            \<and> 0 < rect_width r \<and> 0 < rect_height r
            \<and> rect_x0 r = (if rect_x0 c < rect_x0 pg then rect_x0 pg else rect_x0 c)
            \<and> rect_y0 r = (if rect_y0 c < rect_y0 pg then rect_y0 pg else rect_y0 c)
            \<and> rect_x1 r = (if rect_x1 pg < rect_x1 c then rect_x1 pg else rect_x1 c)
            \<and> rect_y1 r = (if rect_y1 pg < rect_y1 c then rect_y1 pg else rect_y1 c))
       \<and> (rect_x1 c \<le> rect_x0 pg \<or> rect_x1 pg \<le> rect_x0 c
            \<or> rect_y1 c \<le> rect_y0 pg \<or> rect_y1 pg \<le> rect_y0 c
          \<longrightarrow> word_box wanted m s pg w = None)"
    using assms
    by (auto simp: word_box_def clamp_rect_def rect_intersect_def rect_width_def rect_height_def
        Let_def split: option.splits if_splits)
  have retained: "(w_pii w = Some p \<and> is_pii p
            \<and> wt = lower (case pii_type p of None \<Rightarrow> ''other''
                           | Some ty \<Rightarrow> if ty = [] then ''other'' else ty)
            \<and> wt \<in> wanted
            \<and> 0 < rect_width (rect_intersect c pg) \<and> 0 < rect_height (rect_intersect c pg)
          \<longrightarrow> word_box wanted m s pg w = Some (rect_intersect c pg, wt))"
  proof (intro impI, elim conjE)
    assume "w_pii w = Some p" and "is_pii p"
      and "wt = lower (case pii_type p of None \<Rightarrow> ''other''
                           | Some ty \<Rightarrow> if ty = [] then ''other'' else ty)"
      and "wt \<in> wanted"
      and "0 < rect_width (rect_intersect c pg)" and "0 < rect_height (rect_intersect c pg)"
    then show "word_box wanted m s pg w = Some (rect_intersect c pg, wt)"
      using assms by (simp add: word_box_def clamp_rect_def Let_def)
  qed
  show ?thesis
    by (rule conjI [OF conjunct1 [OF clipped] conjI [OF conjunct2 [OF clipped] retained]])
qed

theorem clipping_spec_witness:
  "word_box (set ALL_TYPES) 2 1 letter_page (example_word ''a@b.io'' (- 5) (Some ''email''))
     = Some (\<lparr>rect_x0 = 0, rect_y0 = 48, rect_x1 = 37, rect_y1 = 62\<rparr>, ''email'')
   \<and> rect_x0 (px_to_pdf_rect (expand_bbox \<lparr>bbox_x = - 5, bbox_y = 50, bbox_w = 40, bbox_h = 10\<rparr> 2) 1)
       < rect_x0 letter_page
   \<and> 0 < rect_width \<lparr>rect_x0 = 0, rect_y0 = 48, rect_x1 = 37, rect_y1 = 62\<rparr>
   \<and> rect_x1 letter_page
       \<le> rect_x0 (px_to_pdf_rect (expand_bbox \<lparr>bbox_x = 3000, bbox_y = 50, bbox_w = 40, bbox_h = 10\<rparr> 2) 1)
   \<and> word_box (set ALL_TYPES) 2 1 letter_page (example_word ''a@b.io'' 3000 (Some ''email'')) = None"
proof -
  have b1: "w_bbox (example_word ''a@b.io'' (- 5) (Some ''email''))
              = Some \<lparr>bbox_x = - 5, bbox_y = 50, bbox_w = 40, bbox_h = 10\<rparr>"
    by (simp add: example_word_def)
  have b2: "w_bbox (example_word ''a@b.io'' 3000 (Some ''email''))
              = Some \<lparr>bbox_x = 3000, bbox_y = 50, bbox_w = 40, bbox_h = 10\<rparr>"
    by (simp add: example_word_def)
  have l: "lower ''email'' = ''email''"
    by code_simp
  have e1: "word_box (set ALL_TYPES) 2 1 letter_page (example_word ''a@b.io'' (- 5) (Some ''email''))
     = Some (\<lparr>rect_x0 = 0, rect_y0 = 48, rect_x1 = 37, rect_y1 = 62\<rparr>, ''email'')"
    by (simp add: word_box_def example_word_def l ALL_TYPES_def expand_bbox_def px_to_pdf_rect_def
        clamp_rect_def rect_intersect_def rect_width_def rect_height_def letter_page_def)
  have o1: "rect_x0 (px_to_pdf_rect (expand_bbox \<lparr>bbox_x = - 5, bbox_y = 50, bbox_w = 40, bbox_h = 10\<rparr> 2) 1)
       < rect_x0 letter_page"
    by (simp add: px_to_pdf_rect_def expand_bbox_def letter_page_def)
  have o2: "rect_x1 letter_page
       \<le> rect_x0 (px_to_pdf_rect (expand_bbox \<lparr>bbox_x = 3000, bbox_y = 50, bbox_w = 40, bbox_h = 10\<rparr> 2) 1)"
    by (simp add: px_to_pdf_rect_def expand_bbox_def letter_page_def)
  show ?thesis
    using e1 o1 o2
      clipping_spec [OF b1 refl, where wanted = "set ALL_TYPES" and m = 2 and s = 1
          and pg = letter_page and t = "''email''"
          and r = "\<lparr>rect_x0 = 0, rect_y0 = 48, rect_x1 = 37, rect_y1 = 62\<rparr>"]
      clipping_spec [OF b2 refl, where wanted = "set ALL_TYPES" and m = 2 and s = 1
          and pg = letter_page]
    by blast
qed

section \<open>Categories reached by the redaction stage\<close>

text \<open>
  Claim C7. With the default selection \<open>all\<close>, a flagged word of category
  \<open>password\<close> on a valid page with a box well inside the page gets no rectangle:
  \<open>ALL_TYPES\<close> of the redaction stage has no \<open>password\<close>, so the word fails the type
  test, while the same word tagged \<open>email\<close> gets its rectangle.
\<close>

lemma parse_types_all: "parse_types ''all'' = set ALL_TYPES"
  by code_simp

lemma main_boxes_example:
  assumes "lower t = t'" and "t \<noteq> []"
  shows "main_boxes ''all'' 300 2 [letter_page]
        [\<lparr>p_page = Some 1, p_width = Some 2550, p_height = Some 3300,
          p_words = [example_word txt 100 (Some t)]\<rparr>]
      = Inr [(1, if t' \<in> set ALL_TYPES
                 then [(\<lparr>rect_x0 = fl64 23.52, rect_y0 = fl64 11.52, rect_x1 = fl64 34.08,
                          rect_y1 = fl64 14.88 - 2 powi (- 49)\<rparr>, t')]
                 else [])]"
proof -
  have ne: "set ALL_TYPES \<noteq> {}"
    by (simp add: ALL_TYPES_def)
  have wb: "word_box (set ALL_TYPES) 2 (1080863910568919 / 4503599627370496) letter_page
              (example_word txt 100 (Some t))
            = (if t' \<in> set ALL_TYPES
               then Some (\<lparr>rect_x0 = fl64 23.52, rect_y0 = fl64 11.52, rect_x1 = fl64 34.08,
                            rect_y1 = fl64 14.88 - 2 powi (- 49)\<rparr>, t')
               else None)"
    using assms
    by (simp add: word_box_def example_word_def expand_example rect_example_300 clamp_rect_def
        rect_intersect_def rect_width_def rect_height_def letter_page_def
        fl64_23_52 fl64_11_52 fl64_34_08 fl64_14_88 power_int_minus)
  show ?thesis
    using ne by (simp add: main_boxes_def parse_types_all pixel_scale_300 page_boxes_def wb)
qed

theorem default_selection_skips_password:
  "parse_types ''all'' = set ALL_TYPES
   \<and> ''password'' \<in> set vocabulary
   \<and> ''password'' \<notin> parse_types ''all''
   \<and> main_boxes ''all'' 300 2 [letter_page]
        [\<lparr>p_page = Some 1, p_width = Some 2550, p_height = Some 3300,
          p_words = [example_word ''hunter2'' 100 (Some ''password'')]\<rparr>]
      = Inr [(1, [])]
   \<and> main_boxes ''all'' 300 2 [letter_page]
        [\<lparr>p_page = Some 1, p_width = Some 2550, p_height = Some 3300,
          p_words = [example_word ''hunter2'' 100 (Some ''email'')]\<rparr>]
      = Inr [(1, [(\<lparr>rect_x0 = fl64 23.52, rect_y0 = fl64 11.52, rect_x1 = fl64 34.08,
                    rect_y1 = fl64 14.88 - 2 powi (- 49)\<rparr>, ''email'')])]"
proof -
  have lp: "lower ''password'' = ''password''" and le: "lower ''email'' = ''email''"
    by code_simp+
  have v: "''password'' \<in> set vocabulary"
    by (simp add: vocabulary_def)
  have np: "''password'' \<notin> set ALL_TYPES" and ye: "''email'' \<in> set ALL_TYPES"
    by (simp_all add: ALL_TYPES_def)
  show ?thesis
    using main_boxes_example [OF lp, of "''hunter2''"] main_boxes_example [OF le, of "''hunter2''"]
      v np ye
    by (simp add: parse_types_all)
qed

text \<open>
  The redaction stage lower-cases the raw type but does not normalize it: a flagged
  word whose raw type is the alias \<open>SSN\<close> (category \<open>id_number\<close>) is skipped too.
\<close>

lemma alias_type_not_redacted:
  "normalize_type (Some ''SSN'') = ''id_number''
   \<and> main_boxes ''all'' 300 2 [letter_page]
        [\<lparr>p_page = Some 1, p_width = Some 2550, p_height = Some 3300,
          p_words = [example_word ''078-05-1120'' 100 (Some ''SSN'')]\<rparr>]
      = Inr [(1, [])]"
proof -
  have n: "normalize_type (Some ''SSN'') = ''id_number''" and l: "lower ''SSN'' = ''ssn''"
    by code_simp+
  have "''ssn'' \<notin> set ALL_TYPES"
    by (simp add: ALL_TYPES_def)
  then show ?thesis
    using main_boxes_example [OF l, of "''078-05-1120''"] n by simp
qed

section \<open>The category filter\<close>

lemma filter_word_flagged:
  "flagged (filter_word ks w) = (flagged w \<and> normalize_type (raw_type w) \<in> set ks)"
  by (auto simp: filter_word_def flagged_def raw_type_def Let_def split: option.splits)

lemma filter_word_cleared:
  "flagged w \<Longrightarrow> normalize_type (raw_type w) \<notin> set ks \<Longrightarrow>
   \<exists>pii. w_pii (filter_word ks w) = Some pii \<and> \<not> is_pii pii \<and> pii_type pii = None"
  by (auto simp: filter_word_def flagged_def raw_type_def Let_def split: option.splits)

lemma filter_word_same:
  "\<not> flagged w \<or> normalize_type (raw_type w) \<in> set ks \<Longrightarrow> filter_word ks w = w"
  by (auto simp: filter_word_def flagged_def raw_type_def Let_def split: option.splits)

lemma filter_pii_nth:
  "p < length data \<Longrightarrow> i < length (p_words (data ! p)) \<Longrightarrow>
   p_words (filter_pii data ks ! p) ! i = filter_word ks (p_words (data ! p) ! i)"
  by (simp add: filter_pii_def)

lemma filter_pii_shape:
  "length (filter_pii data ks) = length data
   \<and> (p < length data \<longrightarrow> length (p_words (filter_pii data ks ! p)) = length (p_words (data ! p)))"
  by (simp add: filter_pii_def)

text \<open>
  Claim C3. Filtering keeps the shape of the document; a word is flagged afterwards
  iff it was flagged before and its normalized type is in the kept list; a flagged
  word whose normalized type is not kept ends with \<open>is_pii\<close> false and \<open>type\<close> null;
  a word that was not flagged, and a flagged word that is kept, are unchanged.
\<close>

theorem category_filter_semantics:
  assumes "p < length data" and "i < length (p_words (data ! p))"
    and "w = p_words (data ! p) ! i" and "w' = p_words (filter_pii data ks ! p) ! i"
  shows "length (filter_pii data ks) = length data
    \<and> length (p_words (filter_pii data ks ! p)) = length (p_words (data ! p))
    \<and> (flagged w' \<longleftrightarrow> flagged w \<and> normalize_type (raw_type w) \<in> set ks)
    \<and> (flagged w \<and> normalize_type (raw_type w) \<notin> set ks \<longrightarrow>
         (\<exists>pii. w_pii w' = Some pii \<and> is_pii pii = False \<and> pii_type pii = None))
    \<and> (\<not> flagged w \<longrightarrow> w' = w)
    \<and> (flagged w \<and> normalize_type (raw_type w) \<in> set ks \<longrightarrow> w' = w)"
proof -
  have w': "w' = filter_word ks w"
    using assms by (simp add: filter_pii_nth)
  show ?thesis
    unfolding w'
    using filter_pii_shape [of data ks p] assms(1) filter_word_flagged [of ks w]
      filter_word_cleared [of w ks] filter_word_same [of w ks]
    by blast
qed

theorem category_filter_semantics_witness:
  "flagged (p_words (filter_pii example_doc [''email''] ! 0) ! 0)
   \<and> \<not> flagged (p_words (filter_pii example_doc [''email''] ! 0) ! 1)
   \<and> (\<exists>pii. w_pii (p_words (filter_pii example_doc [''email''] ! 0) ! 1) = Some pii
          \<and> is_pii pii = False \<and> pii_type pii = None)"
proof -
  have l: "0 < length example_doc" "0 < length (p_words (example_doc ! 0))"
    "1 < length (p_words (example_doc ! 0))"
    by (simp_all add: example_doc_def)
  have f0: "flagged (p_words (example_doc ! 0) ! 0)"
    "normalize_type (raw_type (p_words (example_doc ! 0) ! 0)) \<in> set [''email'']"
    by code_simp+
  have f1: "flagged (p_words (example_doc ! 0) ! 1)"
    "normalize_type (raw_type (p_words (example_doc ! 0) ! 1)) \<notin> set [''email'']"
    by code_simp+
  show ?thesis
    using category_filter_semantics [OF l(1) l(2) refl refl, of "[''email'']"]
      category_filter_semantics [OF l(1) l(3) refl refl, of "[''email'']"] f0 f1
    by blast
qed

section \<open>The redaction report\<close>

lemma sum_counter_incr: "sum_list (map snd (counter_incr k c)) = Suc (sum_list (map snd c))"
  by (induction c) auto

lemma report_word_consistent: "consistent a \<Longrightarrow> consistent (report_word pg a iw)"
  by (cases iw) (auto simp: consistent_def report_word_def Let_def sum_counter_incr split: option.splits)

lemma foldl_report_word_consistent:
  "consistent a \<Longrightarrow> consistent (foldl (report_word pg) a iws)"
  by (induction iws arbitrary: a) (simp_all add: report_word_consistent)

lemma report_page_consistent: "consistent a \<Longrightarrow> consistent (report_page a pg)"
  by (simp add: report_page_def foldl_report_word_consistent)

lemma foldl_report_page_consistent: "consistent a \<Longrightarrow> consistent (foldl report_page a data)"
  by (induction data arbitrary: a) (simp_all add: report_page_consistent)

lemma report_word_keys:
  "map (\<lambda>it. (i_page it, i_index it)) (items (report_word pg a (i, w))) =
   map (\<lambda>it. (i_page it, i_index it)) (items a) @ (if flagged w then [(p_page pg, i)] else [])"
  by (auto simp: report_word_def flagged_def Let_def split: option.splits)

lemma foldl_report_word_keys:
  "map (\<lambda>it. (i_page it, i_index it)) (items (foldl (report_word pg) a iws)) =
   map (\<lambda>it. (i_page it, i_index it)) (items a)
   @ map (\<lambda>iw. (p_page pg, fst iw)) (filter (\<lambda>iw. flagged (snd iw)) iws)"
proof (induction iws arbitrary: a)
  case Nil
  then show ?case by simp
next
  case (Cons iw iws)
  obtain i w where iw: "iw = (i, w)" by (cases iw)
  show ?case
    by (simp add: Cons.IH iw report_word_keys)
qed

lemma foldl_report_page_keys:
  "map (\<lambda>it. (i_page it, i_index it)) (items (foldl report_page a data)) =
   map (\<lambda>it. (i_page it, i_index it)) (items a)
   @ concat (map (\<lambda>pg. map (\<lambda>iw. (p_page pg, fst iw))
                         (filter (\<lambda>iw. flagged (snd iw)) (enumerate 0 (p_words pg)))) data)"
  by (induction data arbitrary: a) (simp_all add: report_page_def foldl_report_word_keys)

text \<open>
  Claim C10. In the report built from any document, \<open>summary.total\<close>, the number
  of items, the sum of the counts in \<open>by_type\<close> and the sum of the counts in
  \<open>by_page\<close> are all equal, and the items, read as (page, index) pairs, are exactly
  the flagged words of the document, page after page and within a page in index
  order.
\<close>

theorem report_summary_consistency:
  "total (summary (build_redaction_report data)) = length (items (build_redaction_report data))
   \<and> sum_list (map snd (by_type (summary (build_redaction_report data))))
       = length (items (build_redaction_report data))
   \<and> sum_list (map snd (by_page (summary (build_redaction_report data))))
       = length (items (build_redaction_report data))
   \<and> map (\<lambda>it. (i_page it, i_index it)) (items (build_redaction_report data))
       = concat (map (\<lambda>pg. map (\<lambda>iw. (p_page pg, fst iw))
                              (filter (\<lambda>iw. flagged (snd iw)) (enumerate 0 (p_words pg)))) data)"
proof -
  have "consistent \<lparr>summary = \<lparr>total = 0, by_type = [], by_page = []\<rparr>, items = []\<rparr>"
    by (simp add: consistent_def)
  then have "consistent (build_redaction_report data)"
    unfolding build_redaction_report_def by (rule foldl_report_page_consistent)
  moreover have "map (\<lambda>it. (i_page it, i_index it)) (items (build_redaction_report data))
       = concat (map (\<lambda>pg. map (\<lambda>iw. (p_page pg, fst iw))
                              (filter (\<lambda>iw. flagged (snd iw)) (enumerate 0 (p_words pg)))) data)"
    unfolding build_redaction_report_def by (simp add: foldl_report_page_keys)
  ultimately show ?thesis
    by (simp add: consistent_def)
qed



section \<open>Chunking and marking\<close>

lemma slice_pos: "0 \<le> i \<Longrightarrow> 0 < n \<Longrightarrow> slice seq i (i + n) = take (nat n) (drop (nat i) seq)"
  by (simp add: slice_def nat_add_distrib)

lemma range_step_unfold:
  "0 < n \<Longrightarrow> a < L \<Longrightarrow> range_step a L n = a # range_step (a + n) L n"
  by (subst range_step.simps) simp

lemma range_step_empty: "\<not> (0 < n \<and> a < L) \<Longrightarrow> range_step a L n = []"
  by (subst range_step.simps) simp

lemma range_step_nth:
  "0 < n \<Longrightarrow> k < length (range_step a L n) \<Longrightarrow> range_step a L n ! k = a + int k * n"
proof (induction a L n arbitrary: k rule: range_step.induct)
  case (1 i n step)
  show ?case
  proof (cases "i < n")
    case True
    then have u: "range_step i n step = i # range_step (i + step) n step"
      using "1.prems"(1) by (simp add: range_step_unfold)
    show ?thesis
    proof (cases k)
      case 0
      then show ?thesis by (simp add: u)
    next
      case (Suc k')
      then have "k' < length (range_step (i + step) n step)"
        using "1.prems"(2) u by simp
      then have "range_step (i + step) n step ! k' = i + step + int k' * step"
        using "1.IH" "1.prems"(1) True by simp
      then show ?thesis
        by (simp add: u Suc algebra_simps)
    qed
  next
    case False
    then show ?thesis
      using "1.prems" by (simp add: range_step_empty)
  qed
qed

lemma range_step_bound:
  "0 < n \<Longrightarrow> i \<in> set (range_step a L n) \<Longrightarrow> a \<le> i \<and> i < L"
proof (induction a L n rule: range_step.induct)
  case (1 a L n)
  show ?case
  proof (cases "a < L")
    case True
    then have u: "range_step a L n = a # range_step (a + n) L n"
      using "1.prems"(1) by (simp add: range_step_unfold)
    show ?thesis
      using "1.IH" "1.prems" True u by auto
  next
    case False
    then show ?thesis
      using "1.prems" by (simp add: range_step_empty)
  qed
qed

lemma concat_slices:
  "0 < n \<Longrightarrow> 0 \<le> a \<Longrightarrow>
   concat (map (\<lambda>i. slice seq i (i + n)) (range_step a (int (length seq)) n)) = drop (nat a) seq"
proof (induction a "int (length seq)" n rule: range_step.induct)
  case (1 a n)
  show ?case
  proof (cases "a < int (length seq)")
    case True
    then have u: "range_step a (int (length seq)) n = a # range_step (a + n) (int (length seq)) n"
      using "1.prems"(1) by (simp add: range_step_unfold)
    have "concat (map (\<lambda>i. slice seq i (i + n)) (range_step (a + n) (int (length seq)) n))
            = drop (nat (a + n)) seq"
      using "1.hyps" "1.prems" True by simp
    moreover have "drop (nat (a + n)) seq = drop (nat n) (drop (nat a) seq)"
      using "1.prems" by (simp add: nat_add_distrib add.commute)
    ultimately show ?thesis
      using "1.prems" by (simp add: u slice_pos del: drop_drop)
  next
    case False
    then show ?thesis
      using "1.prems" by (simp add: range_step_empty)
  qed
qed


lemma length_prefix_slices:
  "0 < n \<Longrightarrow> 0 \<le> a \<Longrightarrow> k < length (range_step a (int (length seq)) n) \<Longrightarrow>
   int (length (concat (map (\<lambda>i. slice seq i (i + n)) (take k (range_step a (int (length seq)) n)))))
     = int k * n"
proof (induction a "int (length seq)" n arbitrary: k rule: range_step.induct)
  case (1 a n)
  show ?case
  proof (cases "a < int (length seq)")
    case True
    then have u: "range_step a (int (length seq)) n = a # range_step (a + n) (int (length seq)) n"
      using "1.prems"(1) by (simp add: range_step_unfold)
    show ?thesis
    proof (cases k)
      case 0
      then show ?thesis by simp
    next
      case (Suc k')
      then have k': "k' < length (range_step (a + n) (int (length seq)) n)"
        using "1.prems"(3) u by simp
      then have "range_step (a + n) (int (length seq)) n \<noteq> []"
        by auto
      then have full: "a + n < int (length seq)"
        using range_step_empty [of n "a + n" "int (length seq)"] by auto
      have "int (length (concat (map (\<lambda>i. slice seq i (i + n))
              (take k' (range_step (a + n) (int (length seq)) n))))) = int k' * n"
        using "1.hyps" "1.prems"(1,2) True k' by simp
      moreover have "length (slice seq a (a + n)) = nat n"
        using full "1.prems"(1,2) by (simp add: slice_pos)
      ultimately show ?thesis
        using "1.prems"(1) by (simp add: u Suc algebra_simps)
    qed
  next
    case False
    then show ?thesis
      using "1.prems" by (simp add: range_step_empty)
  qed
qed

lemma length_mark_one: "length (mark_one ws s r) = length ws"
  by (simp add: mark_one_def Let_def)

lemma length_mark: "length (mark ws red s) = length ws"
  unfolding mark_def by (induction red arbitrary: ws) (simp_all add: length_mark_one)

lemma mark_one_nth:
  "p < length ws \<Longrightarrow>
   mark_one ws s r ! p = (if s + r_index r = int p then write_entry (ws ! p) r else ws ! p)"
  by (auto simp: mark_one_def Let_def write_entry_def nth_list_update)

lemma mark_nth:
  "p < length ws \<Longrightarrow>
   mark ws red s ! p = written (ws ! p) (filter (\<lambda>r. s + r_index r = int p) red)"
  unfolding mark_def written_def
  by (induction red arbitrary: ws) (simp_all add: length_mark_one mark_one_nth)

lemma chunk_Inr:
  "n \<noteq> 0 \<Longrightarrow> chunk seq n = Inr (map (\<lambda>i. (i, slice seq i (i + n))) (range_step 0 (int (length seq)) n))"
  by (simp add: chunk_def)

text \<open>
  Claim C1. For every word sequence and every chunk size \<open>n > 0\<close>, \<open>_chunk\<close>
  returns consecutive chunks whose concatenation is the sequence; the start offset of
  the \<open>k\<close>-th chunk is \<open>k * n\<close>, which is the number of words in the chunks before
  it, and the chunk is the slice of the sequence starting there. Hence the word at
  local index \<open>j\<close> of a chunk is the word at position \<open>start + j\<close> of the unsplit
  sequence, and \<open>_mark\<close> with an entry for local index \<open>j\<close> writes the annotation
  onto exactly that word and leaves every other word as it was.
\<close>

theorem index_stability:
  assumes "0 < n"
  shows "\<exists>chunks. chunk seq n = Inr chunks
     \<and> concat (map snd chunks) = seq
     \<and> (\<forall>k < length chunks. \<forall>j < length (snd (chunks ! k)).
          fst (chunks ! k) = int k * n
          \<and> fst (chunks ! k) = int (length (concat (map snd (take k chunks))))
          \<and> snd (chunks ! k) = take (nat n) (drop (nat (fst (chunks ! k))) seq)
          \<and> nat (fst (chunks ! k)) + j < length seq
          \<and> seq ! (nat (fst (chunks ! k)) + j) = snd (chunks ! k) ! j
          \<and> (\<forall>p < length seq.
                mark seq [\<lparr>r_index = int j, r_type = t\<rparr>] (fst (chunks ! k)) ! p
                  = (if p = nat (fst (chunks ! k)) + j
                     then write_entry (snd (chunks ! k) ! j) \<lparr>r_index = int j, r_type = t\<rparr>
                     else seq ! p)))"
proof -
  let ?rs = "range_step 0 (int (length seq)) n"
  let ?f = "\<lambda>i. (i, slice seq i (i + n))"
  let ?chunks = "map ?f ?rs"
  have c: "chunk seq n = Inr ?chunks"
    using assms by (simp add: chunk_Inr)
  have snd_f: "map snd ?chunks = map (\<lambda>i. slice seq i (i + n)) ?rs"
    by simp
  have cc: "concat (map snd ?chunks) = seq"
    unfolding snd_f using concat_slices [of n 0 seq] assms by simp
  have pt: "fst (?chunks ! k) = int k * n
          \<and> fst (?chunks ! k) = int (length (concat (map snd (take k ?chunks))))
          \<and> snd (?chunks ! k) = take (nat n) (drop (nat (fst (?chunks ! k))) seq)
          \<and> nat (fst (?chunks ! k)) + j < length seq
          \<and> seq ! (nat (fst (?chunks ! k)) + j) = snd (?chunks ! k) ! j
          \<and> (\<forall>p < length seq.
                mark seq [\<lparr>r_index = int j, r_type = t\<rparr>] (fst (?chunks ! k)) ! p
                  = (if p = nat (fst (?chunks ! k)) + j
                     then write_entry (snd (?chunks ! k) ! j) \<lparr>r_index = int j, r_type = t\<rparr>
                     else seq ! p))"
    if k: "k < length ?chunks" and j: "j < length (snd (?chunks ! k))" for k j
  proof -
    have k': "k < length ?rs" using k by simp
    have st: "?rs ! k = int k * n"
      using range_step_nth [OF assms k'] by simp
    have fst_k: "fst (?chunks ! k) = int k * n"
      using k' st by simp
    have nonneg: "0 \<le> int k * n" using assms by simp
    have snd_k: "snd (?chunks ! k) = take (nat n) (drop (nat (int k * n)) seq)"
      using k' st nonneg assms by (simp add: slice_pos)
    have "map snd (take k ?chunks) = map (\<lambda>i. slice seq i (i + n)) (take k ?rs)"
      by (simp add: take_map)
    then have pre: "int (length (concat (map snd (take k ?chunks)))) = int k * n"
      using length_prefix_slices [OF assms _ k'] by simp
    have j': "j < length (drop (nat (int k * n)) seq)"
      using j snd_k by simp
    then have in_range: "nat (int k * n) + j < length seq"
      by simp
    have same: "seq ! (nat (int k * n) + j) = snd (?chunks ! k) ! j"
      using j j' snd_k in_range by (simp add: nth_drop)
    have mk: "mark seq [\<lparr>r_index = int j, r_type = t\<rparr>] (int k * n) ! p
                  = (if p = nat (int k * n) + j
                     then write_entry (snd (?chunks ! k) ! j) \<lparr>r_index = int j, r_type = t\<rparr>
                     else seq ! p)" if "p < length seq" for p
    proof -
      have "(int k * n + int j = int p) = (p = nat (int k * n) + j)"
        using nonneg by linarith
      then show ?thesis
        using that same by (simp add: mark_nth written_def)
    qed
    show ?thesis
      unfolding fst_k using pre snd_k in_range same mk fst_k by simp
  qed
  show ?thesis
    using c cc pt by blast
qed

theorem index_stability_witness:
  "(0::int) < 3
   \<and> (\<exists>chunks. chunk example_words 3 = Inr chunks \<and> length chunks = 3
         \<and> fst (chunks ! 2) = 6 \<and> example_words ! (6 + 0) = snd (chunks ! 2) ! 0)"
proof -
  have pos: "(0::int) < 3" by simp
  have e: "chunk example_words 3 =
     Inr [(0, take 3 example_words), (3, take 3 (drop 3 example_words)), (6, drop 6 example_words)]"
    by code_simp
  obtain chunks where c: "chunk example_words 3 = Inr chunks"
    and q: "\<forall>k < length chunks. \<forall>j < length (snd (chunks ! k)).
          fst (chunks ! k) = int k * 3
          \<and> example_words ! (nat (fst (chunks ! k)) + j) = snd (chunks ! k) ! j"
    using index_stability [OF pos, of example_words "''email''"] by blast
  have cs: "chunks = [(0, take 3 example_words), (3, take 3 (drop 3 example_words)), (6, drop 6 example_words)]"
    using c e by simp
  have l: "length chunks = 3" "2 < length chunks" "0 < length (snd (chunks ! 2))"
    by (simp_all add: cs example_words_def)
  have "fst (chunks ! 2) = 6 \<and> example_words ! (nat (fst (chunks ! 2)) + 0) = snd (chunks ! 2) ! 0"
    using q l(2,3) by fastforce
  then show ?thesis
    using c l(1) by auto
qed

section \<open>The page tagger\<close>

lemma tag_chunk_eq:
  "tag_chunk post re (tg, lg) (s, its) =
     (mark tg (chunk_result post re its) s,
      lg @ RemoteCall s # (if remote_empty post its then [FallbackCall s] else []))"
  by (auto simp: tag_chunk_def chunk_result_def remote_empty_def Let_def split: sum.splits)

lemma in_map_filterD:
  "y \<in> set (List.map_filter f xs) \<Longrightarrow> \<exists>x \<in> set xs. f x = Some y"
  by (induction xs) (auto split: option.splits)

lemma call_gemini_bounds:
  assumes "call_gemini post ws = Inr red" and "r \<in> set red"
  shows "0 \<le> r_index r \<and> r_index r < int (length ws)"
proof (cases "post ws")
  case (Redactions raw)
  then have "r \<in> set (List.map_filter
                 (\<lambda>r. case resp_index r of
                        None \<Rightarrow> None
                      | Some idx \<Rightarrow>
                          if 0 \<le> idx \<and> idx < int (length ws)
                          then Some \<lparr>r_index = idx,
                                     r_type = (case resp_type r of None \<Rightarrow> ''other'' | Some t \<Rightarrow> t)\<rparr>
                          else None)
                 raw)"
    using assms by (simp add: call_gemini_def)
  from in_map_filterD [OF this] obtain x :: raw_redaction where
    fx: "(case resp_index x of
            None \<Rightarrow> None
          | Some idx \<Rightarrow>
              if 0 \<le> idx \<and> idx < int (length ws)
              then Some \<lparr>r_index = idx,
                         r_type = (case resp_type x of None \<Rightarrow> ''other'' | Some t \<Rightarrow> t)\<rparr>
              else None) = Some r"
    by blast
  show ?thesis
  proof (cases "resp_index x")
    case None
    with fx show ?thesis by simp
  next
    case (Some idx)
    with fx show ?thesis by (cases "0 \<le> idx \<and> idx < int (length ws)") auto
  qed
qed (use assms in \<open>simp_all add: call_gemini_def\<close>)

lemma distinct_by_index_subset: "set (distinct_by_index seen rs) \<subseteq> set rs"
  by (induction rs arbitrary: seen) auto

lemma regex_pii_indices_bounds:
  "r \<in> set (regex_pii_indices re ws) \<Longrightarrow> 0 \<le> r_index r \<and> r_index r < int (length ws)"
proof -
  assume "r \<in> set (regex_pii_indices re ws)"
  then have "r \<in> set (List.map_filter
                  (\<lambda>i. map_option (\<lambda>t. \<lparr>r_index = int i, r_type = t\<rparr>) (classify_word re ws i))
                  [0..<length ws])"
    using distinct_by_index_subset by (auto simp: regex_pii_indices_def Let_def)
  from in_map_filterD [OF this] show ?thesis
    by auto
qed

lemma chunk_result_bounds:
  "r \<in> set (chunk_result post re ws) \<Longrightarrow> 0 \<le> r_index r \<and> r_index r < int (length ws)"
  using call_gemini_bounds [of post ws _ r] regex_pii_indices_bounds [of r re ws]
  by (auto simp: chunk_result_def split: sum.splits if_splits)

lemma written_append: "written w (a @ b) = written (written w a) b"
  by (simp add: written_def)

lemma foldl_tag_chunk_length:
  "length (fst (foldl (tag_chunk post re) (tg, lg) chunks)) = length tg"
proof (induction chunks arbitrary: tg lg)
  case Nil
  then show ?case by simp
next
  case (Cons c chunks)
  obtain s its where c: "c = (s, its)" by (cases c)
  show ?case
    by (simp add: c tag_chunk_eq Cons.IH length_mark)
qed

lemma foldl_tag_chunk_nth:
  "p < length tg \<Longrightarrow>
   fst (foldl (tag_chunk post re) (tg, lg) chunks) ! p =
     written (tg ! p)
       (concat (map (\<lambda>c. filter (\<lambda>r. fst c + r_index r = int p) (chunk_result post re (snd c))) chunks))"
proof (induction chunks arbitrary: tg lg)
  case Nil
  then show ?case by (simp add: written_def)
next
  case (Cons c chunks)
  obtain s its where c: "c = (s, its)" by (cases c)
  show ?case
    using Cons.prems by (simp add: c tag_chunk_eq Cons.IH length_mark mark_nth written_append)
qed

lemma foldl_tag_chunk_calls:
  "snd (foldl (tag_chunk post re) (tg, lg) chunks) =
     lg @ concat (map (\<lambda>c. RemoteCall (fst c)
                          # (if remote_empty post (snd c) then [FallbackCall (fst c)] else [])) chunks)"
proof (induction chunks arbitrary: tg lg)
  case Nil
  then show ?case by simp
next
  case (Cons c chunks)
  obtain s its where c: "c = (s, its)" by (cases c)
  show ?case
    by (simp add: c tag_chunk_eq Cons.IH)
qed

lemma concat_map_single:
  assumes "k < length xs" and "\<forall>k' < length xs. k' \<noteq> k \<longrightarrow> g (xs ! k') = []"
  shows "concat (map g xs) = g (xs ! k)"
proof -
  have xs: "xs = take k xs @ xs ! k # drop (Suc k) xs"
    using assms(1) by (rule id_take_nth_drop)
  have a: "concat (map g (take k xs)) = []"
    using assms by (auto simp: in_set_conv_nth)
  have b: "concat (map g (drop (Suc k) xs)) = []"
    using assms by (auto simp: in_set_conv_nth)
  have "concat (map g xs) = concat (map g (take k xs)) @ g (xs ! k) @ concat (map g (drop (Suc k) xs))"
    by (subst xs) simp
  then show ?thesis
    using a b by simp
qed

lemma block_unique:
  fixes n i j :: int
  assumes "0 \<le> i" "i < n" "0 \<le> j" "j < n" "int k' * n + i = int k * n + j"
  shows "k' = k"
proof (rule ccontr)
  assume ne: "k' \<noteq> k"
  have n: "0 < n" using assms by linarith
  show False
  proof (cases "k' < k")
    case True
    then have "int k' + 1 \<le> int k" by simp
    then have "(int k' + 1) * n \<le> int k * n"
      using n by (simp add: mult_right_mono)
    then show False using assms by (simp add: algebra_simps)
  next
    case False
    then have "int k + 1 \<le> int k'" using ne by simp
    then have "(int k + 1) * n \<le> int k' * n"
      using n by (simp add: mult_right_mono)
    then show False using assms by (simp add: algebra_simps)
  qed
qed

lemma chunk_nth:
  assumes "0 < n" and "chunk seq n = Inr chunks" and "k < length chunks"
  shows "fst (chunks ! k) = int k * n
       \<and> snd (chunks ! k) = take (nat n) (drop (nat (int k * n)) seq)"
proof -
  let ?rs = "range_step 0 (int (length seq)) n"
  have c: "chunks = map (\<lambda>i. (i, slice seq i (i + n))) ?rs"
    using assms(1,2) by (simp add: chunk_Inr)
  have k': "k < length ?rs" using assms(3) c by simp
  have st: "?rs ! k = int k * n"
    using range_step_nth [OF assms(1) k'] by simp
  have "0 \<le> int k * n" using assms(1) by simp
  then show ?thesis
    using k' st assms(1) by (simp add: c slice_pos)
qed

lemma chunk_positive:
  assumes "chunk seq n = Inr chunks" and "c \<in> set chunks"
  shows "0 < n"
proof (rule ccontr)
  assume "\<not> 0 < n"
  moreover have "n \<noteq> 0" using assms(1) by (auto simp: chunk_def)
  ultimately have "range_step 0 (int (length seq)) n = []"
    by (simp add: range_step_empty)
  then have "chunks = []"
    using assms(1) \<open>n \<noteq> 0\<close> by (simp add: chunk_Inr)
  then show False using assms(2) by simp
qed

lemma remote_empty_iff:
  "remote_empty post its = ((\<exists>e. call_gemini post its = Inl e) \<or> call_gemini post its = Inr [])"
  by (auto simp: remote_empty_def split: sum.splits)

lemma tag_page_chunk_nth:
  assumes tp: "tag_page post re n words = Inr (tagged, calls)"
    and ch: "chunk (map untagged words) n = Inr chunks"
    and k: "k < length chunks"
    and j: "j < length (snd (chunks ! k))"
  shows "nat (fst (chunks ! k)) + j < length words
    \<and> tagged ! (nat (fst (chunks ! k)) + j)
        = written (untagged (words ! (nat (fst (chunks ! k)) + j)))
            (filter (\<lambda>r. r_index r = int j) (chunk_result post re (snd (chunks ! k))))"
proof -
  let ?tg = "map untagged words"
  have n: "0 < n"
    using chunk_positive [OF ch] k by (meson nth_mem)
  have res: "(tagged, calls) = foldl (tag_chunk post re) (?tg, []) chunks"
    using tp ch by (simp add: tag_page_def)
  have ck: "\<And>k'. k' < length chunks \<Longrightarrow> fst (chunks ! k') = int k' * n
       \<and> snd (chunks ! k') = take (nat n) (drop (nat (int k' * n)) ?tg)"
    using chunk_nth [OF n ch] by blast
  let ?s = "fst (chunks ! k)"
  let ?p = "nat ?s + j"
  have s: "?s = int k * n" using ck [OF k] by simp
  have s0: "0 \<le> ?s" using s n by simp
  have jn: "int j < n" and p: "?p < length ?tg"
    using j ck [OF k] by auto
  let ?g = "\<lambda>c. filter (\<lambda>r. fst c + r_index r = int ?p) (chunk_result post re (snd c))"
  have others: "\<forall>k' < length chunks. k' \<noteq> k \<longrightarrow> ?g (chunks ! k') = []"
  proof (intro allI impI)
    fix k' assume k': "k' < length chunks" and ne: "k' \<noteq> k"
    have "\<not> (fst (chunks ! k') + r_index r = int ?p)"
      if r: "r \<in> set (chunk_result post re (snd (chunks ! k')))" for r
    proof
      assume eq: "fst (chunks ! k') + r_index r = int ?p"
      have b: "0 \<le> r_index r \<and> r_index r < int (length (snd (chunks ! k')))"
        using chunk_result_bounds [OF r] .
      have "length (snd (chunks ! k')) \<le> nat n"
        using ck [OF k'] by simp
      then have "r_index r < n" using b by linarith
      moreover have "int k' * n + r_index r = int k * n + int j"
        using eq ck [OF k'] s s0 by simp
      ultimately have "k' = k"
        using block_unique [of "r_index r" n "int j" k' k] b jn by simp
      then show False using ne by simp
    qed
    then show "?g (chunks ! k') = []"
      by (simp add: filter_empty_conv)
  qed
  have "fst (foldl (tag_chunk post re) (?tg, []) chunks) ! ?p
          = written (?tg ! ?p) (concat (map ?g chunks))"
    using p by (rule foldl_tag_chunk_nth)
  also have "concat (map ?g chunks) = ?g (chunks ! k)"
    using k others by (rule concat_map_single)
  also have "?g (chunks ! k) = filter (\<lambda>r. r_index r = int j) (chunk_result post re (snd (chunks ! k)))"
  proof -
    have "int ?p = ?s + int j"
      using s0 by simp
    then have eq: "\<And>r. (?s + r_index r = int ?p) = (r_index r = int j)"
      by linarith
    show ?thesis by (simp only: eq)
  qed
  finally have "tagged ! ?p = written (?tg ! ?p)
      (filter (\<lambda>r. r_index r = int j) (chunk_result post re (snd (chunks ! k))))"
    using res by (metis fst_conv)
  then show ?thesis
    using p by simp
qed

lemma tag_page_fallback_call:
  assumes tp: "tag_page post re n words = Inr (tagged, calls)"
    and ch: "chunk (map untagged words) n = Inr chunks"
    and k: "k < length chunks"
  shows "(FallbackCall (fst (chunks ! k)) \<in> set calls) = remote_empty post (snd (chunks ! k))"
    and "RemoteCall (fst (chunks ! k)) \<in> set calls"
proof -
  let ?tg = "map untagged words"
  have n: "0 < n"
    using chunk_positive [OF ch] k by (meson nth_mem)
  have res: "(tagged, calls) = foldl (tag_chunk post re) (?tg, []) chunks"
    using tp ch by (simp add: tag_page_def)
  have calls: "calls = concat (map (\<lambda>c. RemoteCall (fst c)
                          # (if remote_empty post (snd c) then [FallbackCall (fst c)] else [])) chunks)"
    using foldl_tag_chunk_calls [of post re ?tg "[]" chunks] res by (metis append_Nil snd_conv)
  have uniq: "c = chunks ! k" if c: "c \<in> set chunks" and f: "fst c = fst (chunks ! k)" for c
  proof -
    obtain k' where k': "k' < length chunks" and ck': "chunks ! k' = c"
      using c by (auto simp: in_set_conv_nth)
    have a: "fst (chunks ! k') = int k' * n"
      using chunk_nth [OF n ch k'] by blast
    have b: "fst (chunks ! k) = int k * n"
      using chunk_nth [OF n ch k] by blast
    have "int k' * n = int k * n"
      using a b f ck' by metis
    then have "k' = k" using n by simp
    then show ?thesis using ck' by simp
  qed
  have mem: "chunks ! k \<in> set chunks" using k by simp
  show "(FallbackCall (fst (chunks ! k)) \<in> set calls) = remote_empty post (snd (chunks ! k))"
  proof
    assume "FallbackCall (fst (chunks ! k)) \<in> set calls"
    then obtain c where c: "c \<in> set chunks" "fst c = fst (chunks ! k)" "remote_empty post (snd c)"
      unfolding calls by (auto split: if_splits)
    have "c = chunks ! k"
      using c(1,2) by (rule uniq)
    then show "remote_empty post (snd (chunks ! k))"
      using c(3) by simp
  next
    assume "remote_empty post (snd (chunks ! k))"
    then show "FallbackCall (fst (chunks ! k)) \<in> set calls"
      unfolding calls using mem by force
  qed
  show "RemoteCall (fst (chunks ! k)) \<in> set calls"
    unfolding calls using mem by force
qed

text \<open>
  Claim C4. For every chunk that \<open>tag_page\<close> processes, the regex fallback is
  called iff the remote call raised or returned an empty list (and the remote
  classifier is always called). When the remote list is not empty, each word of the
  chunk ends with what the entries of the remote list for its local index write into
  it, and nothing else; when the remote result is empty, with what the entries of the
  fallback list write.
\<close>

theorem fallback_exclusivity:
  assumes "tag_page post re n words = Inr (tagged, calls)"
    and "chunk (map untagged words) n = Inr chunks"
    and "(start, chunk_items) \<in> set chunks"
  shows "(FallbackCall start \<in> set calls)
           = ((\<exists>e. call_gemini post chunk_items = Inl e) \<or> call_gemini post chunk_items = Inr [])
    \<and> RemoteCall start \<in> set calls
    \<and> (\<forall>red j. call_gemini post chunk_items = Inr red \<and> red \<noteq> [] \<and> j < length chunk_items \<longrightarrow>
          tagged ! (nat start + j)
            = written (untagged (words ! (nat start + j))) (filter (\<lambda>r. r_index r = int j) red))
    \<and> (\<forall>j. ((\<exists>e. call_gemini post chunk_items = Inl e) \<or> call_gemini post chunk_items = Inr [])
            \<and> j < length chunk_items \<longrightarrow>
          tagged ! (nat start + j)
            = written (untagged (words ! (nat start + j)))
                (filter (\<lambda>r. r_index r = int j) (regex_pii_indices re chunk_items)))"
proof -
  obtain k where k: "k < length chunks" and ck: "chunks ! k = (start, chunk_items)"
    using assms(3) by (auto simp: in_set_conv_nth)
  have f: "fst (chunks ! k) = start" and s: "snd (chunks ! k) = chunk_items"
    using ck by simp_all
  have a: "(FallbackCall start \<in> set calls)
           = ((\<exists>e. call_gemini post chunk_items = Inl e) \<or> call_gemini post chunk_items = Inr [])"
    using tag_page_fallback_call(1) [OF assms(1,2) k] by (simp add: f s remote_empty_iff)
  have b: "RemoteCall start \<in> set calls"
    using tag_page_fallback_call(2) [OF assms(1,2) k] by (simp add: f)
  have w: "tagged ! (nat start + j)
        = written (untagged (words ! (nat start + j)))
            (filter (\<lambda>r. r_index r = int j) (chunk_result post re chunk_items))"
    if "j < length chunk_items" for j
    using tag_page_chunk_nth [OF assms(1,2) k, of j] that by (simp add: f s)
  have c: "tagged ! (nat start + j)
            = written (untagged (words ! (nat start + j))) (filter (\<lambda>r. r_index r = int j) red)"
    if "call_gemini post chunk_items = Inr red" "red \<noteq> []" "j < length chunk_items" for red j
    using w [OF that(3)] that(1,2) by (simp add: chunk_result_def)
  have d: "tagged ! (nat start + j)
            = written (untagged (words ! (nat start + j)))
                (filter (\<lambda>r. r_index r = int j) (regex_pii_indices re chunk_items))"
    if "(\<exists>e. call_gemini post chunk_items = Inl e) \<or> call_gemini post chunk_items = Inr []"
      "j < length chunk_items" for j
    using w [OF that(2)] that(1) by (auto simp: chunk_result_def)
  show ?thesis
    using a b c d by blast
qed

theorem fallback_exclusivity_witness:
  "\<exists>tagged calls. tag_page example_post example_regexes 3 example_words = Inr (tagged, calls)
     \<and> FallbackCall 6 \<in> set calls \<and> FallbackCall 0 \<notin> set calls
     \<and> w_pii (tagged ! 1) = Some \<lparr>is_pii = True, pii_type = Some ''name'', pii_source = None\<rparr>
     \<and> w_pii (tagged ! 6) = Some \<lparr>is_pii = True, pii_type = Some ''ip'', pii_source = None\<rparr>"
proof -
  let ?tg = "map untagged example_words"
  have ch: "chunk ?tg 3 = Inr [(0, take 3 ?tg), (3, take 3 (drop 3 ?tg)), (6, drop 6 ?tg)]"
    by code_simp
  have "\<exists>tc. tag_page example_post example_regexes 3 example_words = Inr tc"
    by (simp add: tag_page_def ch Let_def)
  then obtain tagged calls
    where tp: "tag_page example_post example_regexes 3 example_words = Inr (tagged, calls)"
    by force
  have m0: "(0, take 3 ?tg) \<in> set [(0, take 3 ?tg), (3, take 3 (drop 3 ?tg)), (6, drop 6 ?tg)]"
    by simp
  have m6: "(6, drop 6 ?tg) \<in> set [(0, take 3 ?tg), (3, take 3 (drop 3 ?tg)), (6, drop 6 ?tg)]"
    by simp
  have r0: "call_gemini example_post (take 3 ?tg)
              = Inr [\<lparr>r_index = 1, r_type = ''email''\<rparr>, \<lparr>r_index = 1, r_type = ''name''\<rparr>]"
    by code_simp
  have r6: "call_gemini example_post (drop 6 ?tg) = Inl RemoteError"
    by code_simp
  have f6: "regex_pii_indices example_regexes (drop 6 ?tg) = [\<lparr>r_index = 0, r_type = ''ip''\<rparr>]"
    by code_simp
  have l0: "1 < length (take 3 ?tg)" and l6: "0 < length (drop 6 ?tg)"
    by (simp_all add: example_words_def)
  note fe0 = fallback_exclusivity [OF tp ch m0]
  note fe6 = fallback_exclusivity [OF tp ch m6]
  have a: "FallbackCall 0 \<notin> set calls"
    using fe0 r0 by simp
  have "call_gemini example_post (take 3 ?tg)
            = Inr [\<lparr>r_index = 1, r_type = ''email''\<rparr>, \<lparr>r_index = 1, r_type = ''name''\<rparr>]
          \<and> [\<lparr>r_index = 1, r_type = ''email''\<rparr>, \<lparr>r_index = 1, r_type = ''name''\<rparr>] \<noteq> []
          \<and> 1 < length (take 3 ?tg) \<longrightarrow>
        tagged ! (nat 0 + 1) = written (untagged (example_words ! (nat 0 + 1)))
              (filter (\<lambda>r. r_index r = int 1)
                 [\<lparr>r_index = 1, r_type = ''email''\<rparr>, \<lparr>r_index = 1, r_type = ''name''\<rparr>])"
    using fe0 by blast
  then have b: "tagged ! 1 = written (untagged (example_words ! 1))
                 [\<lparr>r_index = 1, r_type = ''email''\<rparr>, \<lparr>r_index = 1, r_type = ''name''\<rparr>]"
    using r0 l0 by simp
  have c: "FallbackCall 6 \<in> set calls"
    using fe6 r6 by simp
  have "((\<exists>e. call_gemini example_post (drop 6 ?tg) = Inl e)
           \<or> call_gemini example_post (drop 6 ?tg) = Inr [])
          \<and> 0 < length (drop 6 ?tg) \<longrightarrow>
        tagged ! (nat 6 + 0) = written (untagged (example_words ! (nat 6 + 0)))
              (filter (\<lambda>r. r_index r = int 0) (regex_pii_indices example_regexes (drop 6 ?tg)))"
    using fe6 by blast
  then have d: "tagged ! 6 = written (untagged (example_words ! 6)) [\<lparr>r_index = 0, r_type = ''ip''\<rparr>]"
    using r6 l6 f6 by simp
  have "w_pii (tagged ! 1) = Some \<lparr>is_pii = True, pii_type = Some ''name'', pii_source = None\<rparr>"
    using b by (simp add: written_def write_entry_def)
  moreover have "w_pii (tagged ! 6) = Some \<lparr>is_pii = True, pii_type = Some ''ip'', pii_source = None\<rparr>"
    using d by (simp add: written_def write_entry_def)
  ultimately show ?thesis
    using tp a c by blast
qed

section \<open>Entries that share an index\<close>

lemma written_last:
  "rs \<noteq> [] \<Longrightarrow>
   w_pii (written w rs) = Some \<lparr>is_pii = True, pii_type = Some (r_type (last rs)), pii_source = None\<rparr>"
  by (induction rs rule: rev_induct) (simp_all add: written_def write_entry_def)

lemma distinct_by_index_distinct:
  "distinct (map r_index (distinct_by_index seen rs))
   \<and> r_index ` set (distinct_by_index seen rs) \<inter> seen = {}"
  by (induction rs arbitrary: seen) auto

lemma distinct_by_index_first:
  "i \<notin> seen \<Longrightarrow>
   find (\<lambda>r. r_index r = i) (distinct_by_index seen rs) = find (\<lambda>r. r_index r = i) rs"
  by (induction rs arbitrary: seen) auto

lemma regex_pii_indices_distinct: "distinct (map r_index (regex_pii_indices re ws))"
  using distinct_by_index_distinct by (simp add: regex_pii_indices_def Let_def)

text \<open>
  Claim C6. The fallback list is made distinct by index, keeping the first entry
  for each index (the three lemmas above). The remote list is not: when the remote
  classifier answers with two entries for index 0, \<open>email\<close> and then \<open>name\<close>,
  both reach \<open>_mark\<close>, the second overwrites the first, and the word ends tagged
  \<open>name\<close>, the type of the last entry.
\<close>

theorem remote_duplicates_last_wins:
  "call_gemini duplicate_post [plain_word ''john@x.com'']
     = Inr [\<lparr>r_index = 0, r_type = ''email''\<rparr>, \<lparr>r_index = 0, r_type = ''name''\<rparr>]
   \<and> map_sum id (\<lambda>tc. map w_pii (fst tc))
        (tag_page duplicate_post example_regexes 600 [plain_word ''john@x.com''])
     = Inr [Some \<lparr>is_pii = True, pii_type = Some ''name'', pii_source = None\<rparr>]"
  by code_simp

end
